theory Spec2Isabelle
  imports Complex_Main "HOL-Library.Multiset" "HOL-Library.Log_Nat"
begin

section \<open>Data model of \<open>processMidi\<close> (src/main.js)\<close>

text \<open>
  JavaScript numbers that carry times and durations are real numbers; pitches
  (\<open>note.midi\<close>) are integers and origin-track indices are array indices. A note as the
  MIDI loader hands it over has four fields; \<open>processMidi\<close> copies them into a fresh
  object with the derived field \<open>endTime\<close> and the index of the source track.

  The allocator is written down twice. In the sections that follow every sum and
  difference is exact; the properties that the control flow decides, whatever the
  arithmetic, are stated there. The section on double arithmetic repeats the arithmetic
  with each result rounded as the program rounds it; the bound on overlaps, which
  rounding decides, is stated there.
\<close>

record raw_note =
  raw_midi :: int
  raw_time :: real
  raw_duration :: real
  raw_velocity :: real

record "note" =
  midi :: int
  time :: real
  duration :: real
  velocity :: real
  endTime :: real
  origTrack :: nat

text \<open>
  The tolerance \<open>1e-6\<close> and the truncation floor \<open>0.01\<close> of the source, as the decimal
  numbers; the doubles the program holds for them are \<open>EPS_D\<close> and \<open>MIN_DURATION_D\<close>
  of the section on double arithmetic.
\<close>

definition EPS :: real where
  "EPS = 1 / 1000000"

definition MIN_DURATION :: real where
  "MIN_DURATION = 1 / 100"

text \<open>
  \<open>TRACK_NAMES = ['Main Theme', 'Chord', 'Base']\<close>. The source moves between a name and
  its index with \<open>TRACK_NAMES[i]\<close> and \<open>TRACK_NAMES.indexOf(name)\<close>, which are inverse on
  the three names, so a track is named by its index 0, 1 or 2 throughout.
\<close>

definition TRACK_IDXS :: "nat list" where
  "TRACK_IDXS = [0, 1, 2]"

text \<open>
  The allocator's mutable state. \<open>trackState[i]\<close> and \<open>trackMap.get(TRACK_NAMES[i])\<close>
  receive the same objects by the same pushes, and the in-place truncation mutates an
  object that both arrays hold, so one list per track stands for both.
\<close>

record alloc_state =
  trackState :: "note list list"
  origTrackToTarget :: "nat \<rightharpoonup> nat"

definition initState :: alloc_state where
  "initState = \<lparr> trackState = map (\<lambda>_. []) TRACK_IDXS, origTrackToTarget = Map.empty \<rparr>"

section \<open>Collecting and ordering the notes (lines 88--97)\<close>

definition mkNote :: "nat \<Rightarrow> raw_note \<Rightarrow> note" where
  "mkNote trackIdx n =
     \<lparr> midi = raw_midi n, time = raw_time n, duration = raw_duration n,
       velocity = raw_velocity n, endTime = raw_time n + raw_duration n,
       origTrack = trackIdx \<rparr>"

definition collectNotes :: "raw_note list list \<Rightarrow> note list" where
  "collectNotes tracks =
     concat (map (\<lambda>(trackIdx, notes). map (mkNote trackIdx) notes) (enumerate 0 tracks))"

text \<open>The comparator \<open>(a, b) => a.time - b.time || b.midi - a.midi\<close>.\<close>

definition compareNotes :: "note \<Rightarrow> note \<Rightarrow> real" where
  "compareNotes a b =
     (if time a - time b \<noteq> 0 then time a - time b else of_int (midi b - midi a))"

text \<open>
  \<open>Array.prototype.sort\<close> is stable; a stable sort by a consistent comparator is
  determined by the comparator, and is written here as insertion from the right.
\<close>

fun insertNote :: "note \<Rightarrow> note list \<Rightarrow> note list" where
  "insertNote x [] = [x]"
| "insertNote x (y # ys) =
     (if compareNotes x y \<le> 0 then x # y # ys else y # insertNote x ys)"

definition sortNotes :: "note list \<Rightarrow> note list" where
  "sortNotes xs = foldr insertNote xs []"

definition allNotesOf :: "raw_note list list \<Rightarrow> note list" where
  "allNotesOf tracks = sortNotes (collectNotes tracks)"

section \<open>The pitch-based suggestion (lines 113--118)\<close>

text \<open>
  \<open>Math.max\<close> and \<open>Math.min\<close> take JavaScript values and return a number that may be
  infinite or NaN. An argument that is \<open>undefined\<close> converts to NaN, and any NaN argument
  makes the result NaN; with no argument \<open>Math.max()\<close> is \<open>-Infinity\<close> and \<open>Math.min()\<close>
  is \<open>Infinity\<close>.
\<close>

datatype jsval = JNum real | JUndefined

datatype jsnum = Finite real | PosInfinity | NegInfinity | NaN

fun numsOf :: "jsval list \<Rightarrow> real list option" where
  "numsOf [] = Some []"
| "numsOf (JUndefined # vs) = None"
| "numsOf (JNum x # vs) = (case numsOf vs of None \<Rightarrow> None | Some xs \<Rightarrow> Some (x # xs))"

definition Math_max :: "jsval list \<Rightarrow> jsnum" where
  "Math_max vs =
     (case numsOf vs of
        None \<Rightarrow> NaN
      | Some [] \<Rightarrow> NegInfinity
      | Some (x # xs) \<Rightarrow> Finite (fold max xs x))"

definition Math_min :: "jsval list \<Rightarrow> jsnum" where
  "Math_min vs =
     (case numsOf vs of
        None \<Rightarrow> NaN
      | Some [] \<Rightarrow> PosInfinity
      | Some (x # xs) \<Rightarrow> Finite (fold min xs x))"

text \<open>\<open>note.midi === r\<close> for a finite integer pitch on the left: NaN equals nothing.\<close>

fun strictEq :: "int \<Rightarrow> jsnum \<Rightarrow> bool" where
  "strictEq m (Finite x) = (of_int m = x)"
| "strictEq m PosInfinity = False"
| "strictEq m NegInfinity = False"
| "strictEq m NaN = False"

text \<open>
  \<open>n.midi\<close> of a note is its pitch. On line 117 the second \<open>map\<close> reads \<open>.midi\<close> of a
  number (a time): a property read on a number primitive that has no such property
  gives \<open>undefined\<close>.
\<close>

definition midiOfNote :: "note \<Rightarrow> jsval" where
  "midiOfNote n = JNum (of_int (midi n))"

definition midiOfNumber :: "real \<Rightarrow> jsval" where
  "midiOfNumber t = JUndefined"

definition idxByPitchOf :: "note list \<Rightarrow> note \<Rightarrow> nat" where
  "idxByPitchOf allNotes note =
     (let notesAtTime = filter (\<lambda>n. time n = time note) allNotes in
      if strictEq (midi note) (Math_max (map midiOfNote notesAtTime)) then 0
      else if strictEq (midi note) (Math_min (map midiOfNumber (map time notesAtTime))) then 2
      else 1)"

definition tryOrderOf :: "note list \<Rightarrow> nat option \<Rightarrow> note \<Rightarrow> nat list" where
  "tryOrderOf allNotes preferIdx note =
     (case preferIdx of
        Some p \<Rightarrow> p # filter (\<lambda>i. i \<noteq> p) TRACK_IDXS
      | None \<Rightarrow>
          (let idxByPitch = idxByPitchOf allNotes note in
           if idxByPitch \<noteq> 0
           then TRACK_IDXS[0 := TRACK_IDXS ! idxByPitch, idxByPitch := TRACK_IDXS ! 0]
           else TRACK_IDXS))"

section \<open>Placing one note (lines 121--205)\<close>

text \<open>The predicate of both \<open>notesArr.find\<close> calls.\<close>

definition overlaps :: "note \<Rightarrow> note \<Rightarrow> bool" where
  "overlaps note n = (\<not> (endTime note \<le> time n + EPS \<or> time note \<ge> endTime n - EPS))"

text \<open>
  \<open>find\<close> returns the first matching object; the source later mutates that object in
  place, so the model returns its position in the array.
\<close>

fun findOverlap :: "note \<Rightarrow> note list \<Rightarrow> nat option" where
  "findOverlap note [] = None"
| "findOverlap note (n # ns) =
     (if overlaps note n then Some 0
      else (case findOverlap note ns of None \<Rightarrow> None | Some k \<Rightarrow> Some (Suc k)))"

text \<open>
  What one candidate track does with the note (lines 142--199): the new contents of
  the track and which branch produced them, or \<open>None\<close> when the loop goes on to the
  next candidate.
\<close>

datatype resolution = Verbatim | TruncatedIncoming | TruncatedExisting

definition tryTrack :: "note \<Rightarrow> note list \<Rightarrow> (resolution \<times> note list) option" where
  "tryTrack note notesArr =
     (case findOverlap note notesArr of
        None \<Rightarrow> Some (Verbatim, notesArr @ [note])
      | Some k \<Rightarrow>
          (let overlap = notesArr ! k;
               newDuration = time overlap - time note;
               overlapNewDuration = time note - time overlap in
           if time note < time overlap \<and> endTime note > time overlap + EPS
              \<and> newDuration > MIN_DURATION
           then Some (TruncatedIncoming,
                      notesArr @ [note\<lparr> duration := newDuration, endTime := time overlap \<rparr>])
           else if endTime overlap > time note + EPS \<and> endTime overlap > endTime note + EPS
              \<and> time overlap < time note - EPS \<and> overlapNewDuration > MIN_DURATION
           then Some (TruncatedExisting,
                      notesArr[k := overlap\<lparr> duration := overlapNewDuration,
                                           endTime := time overlap + overlapNewDuration \<rparr>]
                      @ [note])
           else None))"

text \<open>The guarded write \<open>if (!origTrackToTarget.has(o)) origTrackToTarget.set(o, idx)\<close>.\<close>

definition setIfAbsent :: "(nat \<rightharpoonup> nat) \<Rightarrow> nat \<Rightarrow> nat \<Rightarrow> (nat \<rightharpoonup> nat)" where
  "setIfAbsent m k v = (case m k of None \<Rightarrow> m(k \<mapsto> v) | Some _ \<Rightarrow> m)"

text \<open>The candidate loop of lines 137--200; the boolean is \<open>assigned\<close>.\<close>

fun scanTracks :: "nat option \<Rightarrow> note \<Rightarrow> nat list \<Rightarrow> alloc_state \<Rightarrow> bool \<times> alloc_state" where
  "scanTracks preferIdx note [] s = (False, s)"
| "scanTracks preferIdx note (idx # rest) s =
     (if preferIdx = Some idx then scanTracks preferIdx note rest s
      else (case tryTrack note (trackState s ! idx) of
              Some (r, notesArr') \<Rightarrow>
                (True, \<lparr> trackState = (trackState s)[idx := notesArr'],
                         origTrackToTarget =
                           setIfAbsent (origTrackToTarget s) (origTrack note) idx \<rparr>)
            | None \<Rightarrow> scanTracks preferIdx note rest s))"

text \<open>The fast path of lines 122--133.\<close>

definition fastPath :: "nat option \<Rightarrow> note \<Rightarrow> alloc_state \<Rightarrow> bool \<times> alloc_state" where
  "fastPath preferIdx note s =
     (case preferIdx of
        None \<Rightarrow> (False, s)
      | Some p \<Rightarrow>
          (let notesArr = trackState s ! p in
           if findOverlap note notesArr = None
           then (True, s\<lparr> trackState := (trackState s)[p := notesArr @ [note]] \<rparr>)
           else (False, s)))"

text \<open>One iteration of \<open>for (const note of allNotes)\<close>; the boolean is \<open>assigned\<close>.\<close>

definition allocNote :: "note list \<Rightarrow> alloc_state \<Rightarrow> note \<Rightarrow> bool \<times> alloc_state" where
  "allocNote allNotes s note =
     (let preferIdx = origTrackToTarget s (origTrack note);
          tryOrder = tryOrderOf allNotes preferIdx note;
          (assigned, s1) = fastPath preferIdx note s
      in if \<not> assigned then scanTracks preferIdx note tryOrder s1 else (assigned, s1))"

text \<open>
  The whole loop over a list of notes still to be processed. Besides the final state it
  returns the notes for which \<open>assigned\<close> stayed false, the ones the verbose mode
  reports as dropped.
\<close>

fun allocLoop :: "note list \<Rightarrow> note list \<Rightarrow> alloc_state \<Rightarrow> note list \<times> alloc_state" where
  "allocLoop allNotes [] s = ([], s)"
| "allocLoop allNotes (note # rest) s =
     (let (assigned, s') = allocNote allNotes s note;
          (dropped, s'') = allocLoop allNotes rest s'
      in (if assigned then dropped else note # dropped, s''))"

section \<open>The final ordering and the result (lines 207--232)\<close>

text \<open>\<open>notes.sort((a, b) => a.time - b.time)\<close>, stable.\<close>

fun insertByTime :: "note \<Rightarrow> note list \<Rightarrow> note list" where
  "insertByTime x [] = [x]"
| "insertByTime x (y # ys) =
     (if time x - time y \<le> 0 then x # y # ys else y # insertByTime x ys)"

definition sortByTime :: "note list \<Rightarrow> note list" where
  "sortByTime xs = foldr insertByTime xs []"

definition allocate :: "raw_note list list \<Rightarrow> note list \<times> alloc_state" where
  "allocate tracks = (let allNotes = allNotesOf tracks in allocLoop allNotes allNotes initState)"

definition droppedNotes :: "raw_note list list \<Rightarrow> note list" where
  "droppedNotes tracks = fst (allocate tracks)"

text \<open>The returned \<open>trackMap\<close>, as the list of its three values in track order.\<close>

definition processMidi :: "raw_note list list \<Rightarrow> note list list" where
  "processMidi tracks = map sortByTime (trackState (snd (allocate tracks)))"

section \<open>The allocator in double arithmetic\<close>

text \<open>
  The program computes on IEEE-754 doubles: every sum and difference of two numbers is
  the exact result rounded to the nearest double, ties to the even significand. The
  definitions above take each result exact; the ones below round it. \<open>roundDouble\<close>
  rounds to 53 significant bits; the exponent range is taken unbounded, so overflow to
  \<open>Infinity\<close> and the gradual underflow below \<open>2^-1022\<close> are left out, and on
  results of magnitude between \<open>2^-1022\<close> and \<open>2^1024\<close> it is the rounding of the
  hardware. Comparisons and the equality \<open>n.time === note.time\<close> are exact on doubles,
  so the pitch-based suggestion and the candidate order are the same functions as above.
\<close>

definition roundEven :: "real \<Rightarrow> int" where
  "roundEven y =
     (let f = \<lfloor>y\<rfloor>; r = y - of_int f in
      if r < 1 / 2 then f else if 1 / 2 < r then f + 1 else if even f then f else f + 1)"

text \<open>
  \<open>binade x\<close> is the exponent \<open>e\<close> with \<open>2^e \<le> |x| < 2^(e+1)\<close>, read off the bit length
  of the integer part of \<open>|x|\<close> or of \<open>1/|x|\<close>; the doubles of that binade are the
  multiples of \<open>2^(e-52)\<close>.
\<close>

definition binade :: "real \<Rightarrow> int" where
  "binade x = (if 1 \<le> \<bar>x\<bar> then bitlen \<lfloor>\<bar>x\<bar>\<rfloor> - 1 else - bitlen (\<lceil>1 / \<bar>x\<bar>\<rceil> - 1))"

definition roundDouble :: "real \<Rightarrow> real" where
  "roundDouble x =
     (if x = 0 then 0
      else (let q = (2::real) powi (binade x - 52)
            in of_int (roundEven (x / q)) * q))"

text \<open>The doubles that the literals \<open>1e-6\<close> and \<open>0.01\<close> denote.\<close>

definition EPS_D :: real where
  "EPS_D = 4722366482869645 / 2 ^ 72"

definition MIN_DURATION_D :: real where
  "MIN_DURATION_D = 5764607523034235 / 2 ^ 59"

text \<open>Lines 88--97: \<open>note.time + note.duration\<close> and the comparator's difference round.\<close>

definition mkNoteD :: "nat \<Rightarrow> raw_note \<Rightarrow> note" where
  "mkNoteD trackIdx n =
     \<lparr> midi = raw_midi n, time = raw_time n, duration = raw_duration n,
       velocity = raw_velocity n, endTime = roundDouble (raw_time n + raw_duration n),
       origTrack = trackIdx \<rparr>"

definition collectNotesD :: "raw_note list list \<Rightarrow> note list" where
  "collectNotesD tracks =
     concat (map (\<lambda>(trackIdx, notes). map (mkNoteD trackIdx) notes) (enumerate 0 tracks))"

definition compareNotesD :: "note \<Rightarrow> note \<Rightarrow> real" where
  "compareNotesD a b =
     (if roundDouble (time a - time b) \<noteq> 0 then roundDouble (time a - time b)
      else of_int (midi b - midi a))"

fun insertNoteD :: "note \<Rightarrow> note list \<Rightarrow> note list" where
  "insertNoteD x [] = [x]"
| "insertNoteD x (y # ys) =
     (if compareNotesD x y \<le> 0 then x # y # ys else y # insertNoteD x ys)"

definition sortNotesD :: "note list \<Rightarrow> note list" where
  "sortNotesD xs = foldr insertNoteD xs []"

definition allNotesOfD :: "raw_note list list \<Rightarrow> note list" where
  "allNotesOfD tracks = sortNotesD (collectNotesD tracks)"

text \<open>
  Lines 121--205: the bounds \<open>n.time + 1e-6\<close> and \<open>n.endTime - 1e-6\<close> of the overlap
  test, both new durations and the recomputed end \<open>overlap.time + overlapNewDuration\<close>
  round.
\<close>

definition overlapsD :: "note \<Rightarrow> note \<Rightarrow> bool" where
  "overlapsD note n =
     (\<not> (endTime note \<le> roundDouble (time n + EPS_D)
         \<or> time note \<ge> roundDouble (endTime n - EPS_D)))"

fun findOverlapD :: "note \<Rightarrow> note list \<Rightarrow> nat option" where
  "findOverlapD note [] = None"
| "findOverlapD note (n # ns) =
     (if overlapsD note n then Some 0
      else (case findOverlapD note ns of None \<Rightarrow> None | Some k \<Rightarrow> Some (Suc k)))"

definition tryTrackD :: "note \<Rightarrow> note list \<Rightarrow> (resolution \<times> note list) option" where
  "tryTrackD note notesArr =
     (case findOverlapD note notesArr of
        None \<Rightarrow> Some (Verbatim, notesArr @ [note])
      | Some k \<Rightarrow>
          (let overlap = notesArr ! k;
               newDuration = roundDouble (time overlap - time note);
               overlapNewDuration = roundDouble (time note - time overlap) in
           if time note < time overlap \<and> endTime note > roundDouble (time overlap + EPS_D)
              \<and> newDuration > MIN_DURATION_D
           then Some (TruncatedIncoming,
                      notesArr @ [note\<lparr> duration := newDuration, endTime := time overlap \<rparr>])
           else if endTime overlap > roundDouble (time note + EPS_D)
              \<and> endTime overlap > roundDouble (endTime note + EPS_D)
              \<and> time overlap < roundDouble (time note - EPS_D)
              \<and> overlapNewDuration > MIN_DURATION_D
           then Some (TruncatedExisting,
                      notesArr[k := overlap\<lparr> duration := overlapNewDuration,
                                           endTime := roundDouble (time overlap + overlapNewDuration) \<rparr>]
                      @ [note])
           else None))"

fun scanTracksD :: "nat option \<Rightarrow> note \<Rightarrow> nat list \<Rightarrow> alloc_state \<Rightarrow> bool \<times> alloc_state" where
  "scanTracksD preferIdx note [] s = (False, s)"
| "scanTracksD preferIdx note (idx # rest) s =
     (if preferIdx = Some idx then scanTracksD preferIdx note rest s
      else (case tryTrackD note (trackState s ! idx) of
              Some (r, notesArr') \<Rightarrow>
                (True, \<lparr> trackState = (trackState s)[idx := notesArr'],
                         origTrackToTarget =
                           setIfAbsent (origTrackToTarget s) (origTrack note) idx \<rparr>)
            | None \<Rightarrow> scanTracksD preferIdx note rest s))"

definition fastPathD :: "nat option \<Rightarrow> note \<Rightarrow> alloc_state \<Rightarrow> bool \<times> alloc_state" where
  "fastPathD preferIdx note s =
     (case preferIdx of
        None \<Rightarrow> (False, s)
      | Some p \<Rightarrow>
          (let notesArr = trackState s ! p in
           if findOverlapD note notesArr = None
           then (True, s\<lparr> trackState := (trackState s)[p := notesArr @ [note]] \<rparr>)
           else (False, s)))"

definition allocNoteD :: "note list \<Rightarrow> alloc_state \<Rightarrow> note \<Rightarrow> bool \<times> alloc_state" where
  "allocNoteD allNotes s note =
     (let preferIdx = origTrackToTarget s (origTrack note);
          tryOrder = tryOrderOf allNotes preferIdx note;
          (assigned, s1) = fastPathD preferIdx note s
      in if \<not> assigned then scanTracksD preferIdx note tryOrder s1 else (assigned, s1))"

fun allocLoopD :: "note list \<Rightarrow> note list \<Rightarrow> alloc_state \<Rightarrow> note list \<times> alloc_state" where
  "allocLoopD allNotes [] s = ([], s)"
| "allocLoopD allNotes (note # rest) s =
     (let (assigned, s') = allocNoteD allNotes s note;
          (dropped, s'') = allocLoopD allNotes rest s'
      in (if assigned then dropped else note # dropped, s''))"

text \<open>Lines 207--232: the comparator of the final sort rounds its difference.\<close>

fun insertByTimeD :: "note \<Rightarrow> note list \<Rightarrow> note list" where
  "insertByTimeD x [] = [x]"
| "insertByTimeD x (y # ys) =
     (if roundDouble (time x - time y) \<le> 0 then x # y # ys else y # insertByTimeD x ys)"

definition sortByTimeD :: "note list \<Rightarrow> note list" where
  "sortByTimeD xs = foldr insertByTimeD xs []"

definition allocateD :: "raw_note list list \<Rightarrow> note list \<times> alloc_state" where
  "allocateD tracks =
     (let allNotes = allNotesOfD tracks in allocLoopD allNotes allNotes initState)"

definition processMidiD :: "raw_note list list \<Rightarrow> note list list" where
  "processMidiD tracks = map sortByTimeD (trackState (snd (allocateD tracks)))"

section \<open>Vocabulary of the properties\<close>


definition wfState :: "alloc_state \<Rightarrow> bool" where
  "wfState s = (length (trackState s) = 3 \<and> (\<forall>k v. origTrackToTarget s k = Some v \<longrightarrow> v < 3))"


definition noteOrder :: "note \<Rightarrow> note \<Rightarrow> bool" where
  "noteOrder a b = (time a < time b \<or> (time a = time b \<and> midi b \<le> midi a))"

text \<open>
  For the allocator in double arithmetic, with start times and durations of magnitude at
  most \<open>2^20\<close>: a held note has a bounded start and end, and its stored end differs
  from start plus duration by at most \<open>2^-31\<close>; two notes of a track are separated when
  one ends no later than \<open>EPS_D + 2^-30\<close> after the other starts.
\<close>

definition okNote :: "note \<Rightarrow> bool" where
  "okNote n = (\<bar>time n\<bar> \<le> 2 ^ 20 \<and> \<bar>endTime n\<bar> \<le> 2 ^ 22 - 1
               \<and> \<bar>endTime n - (time n + duration n)\<bar> \<le> 1 / 2 ^ 31)"

definition sep :: "note \<Rightarrow> note \<Rightarrow> bool" where
  "sep a b = (endTime a \<le> time b + EPS_D + 1 / 2 ^ 30 \<or> endTime b \<le> time a + EPS_D + 1 / 2 ^ 30)"

definition trackInvD :: "note list \<Rightarrow> note list \<Rightarrow> bool" where
  "trackInvD rest xs =
     (sorted_wrt sep xs \<and> (\<forall>n\<in>set xs. okNote n \<and> (\<forall>m\<in>set rest. time n \<le> time m)))"

definition stateInvD :: "note list \<Rightarrow> alloc_state \<Rightarrow> bool" where
  "stateInvD rest s = (wfState s \<and> (\<forall>xs\<in>set (trackState s). trackInvD rest xs))"

text \<open>
  The number of notes held by the three tracks, and the origin of a held note: an
  allocated note is a note of the processing order itself, or a shortened copy of one.
\<close>

definition totalNotes :: "alloc_state \<Rightarrow> nat" where
  "totalNotes s = sum_list (map length (trackState s))"



text \<open>Example inputs.\<close>

definition rawNote :: "int \<Rightarrow> real \<Rightarrow> real \<Rightarrow> raw_note" where
  "rawNote p t d = \<lparr> raw_midi = p, raw_time = t, raw_duration = d, raw_velocity = 1 \<rparr>"

text \<open>A long note on one source track and a short one inside it on another.\<close>

definition exSpanned :: "raw_note list list" where
  "exSpanned = [[rawNote 72 0 4], [rawNote 60 1 2]]"

text \<open>
  Three source tracks whose first notes fill all three output tracks over 0--2, and a
  later note 1--3 on the first source track; the state after the first three notes and
  after the first note alone; the later note.
\<close>

definition exCrowded :: "raw_note list list" where
  "exCrowded = [[rawNote 72 0 2, rawNote 72 1 2], [rawNote 60 0 2], [rawNote 50 0 2]]"

definition exCrowdedState :: alloc_state where
  "exCrowdedState =
     snd (allocLoop (allNotesOf exCrowded) (take 3 (allNotesOf exCrowded)) initState)"

definition exLate :: "note" where
  "exLate = allNotesOf exCrowded ! 3"

definition exFirstState :: alloc_state where
  "exFirstState =
     snd (allocLoop (allNotesOf exCrowded) (take 1 (allNotesOf exCrowded)) initState)"


text \<open>
  A chord of three pitches at time 0 followed by a single note; two source tracks with
  notes out of order.
\<close>

definition exChord :: "note list" where
  "exChord = allNotesOf [[rawNote 60 0 1, rawNote 72 0 1, rawNote 48 0 1, rawNote 40 2 1]]"

definition exMixed :: "raw_note list list" where
  "exMixed = [[rawNote 60 1 1, rawNote 64 0 1], [rawNote 72 1 1, rawNote 55 0 1]]"

text \<open>
  Two notes of one source track that the double arithmetic lets share a track although
  they overlap by more than \<open>EPS\<close>: at times near \<open>2^33\<close>, where neighbouring doubles
  are \<open>2^-19\<close> apart, and at times near 1, where the second note starts at the double
  that \<open>1 - 1e-6\<close> rounds to.
\<close>

definition exHuge :: "raw_note list list" where
  "exHuge = [[rawNote 60 (2 ^ 33) 1, rawNote 62 (2 ^ 33 + 1 - 1 / 2 ^ 19) 1]]"

definition exNearOne :: "raw_note list list" where
  "exNearOne = [[rawNote 60 0 1, rawNote 62 (9007190247541737 / 2 ^ 53) 1]]"

lemmas eval_defs =
  processMidi_def allocate_def droppedNotes_def allNotesOf_def sortNotes_def
  collectNotes_def mkNote_def compareNotes_def initState_def TRACK_IDXS_def
  allocNote_def fastPath_def tryOrderOf_def idxByPitchOf_def Math_max_def Math_min_def
  midiOfNote_def midiOfNumber_def tryTrack_def overlaps_def EPS_def MIN_DURATION_def
  setIfAbsent_def sortByTime_def Let_def enumerate_eq_zip rawNote_def

lemmas eval_defsD =
  processMidiD_def allocateD_def allNotesOfD_def sortNotesD_def
  collectNotesD_def mkNoteD_def compareNotesD_def initState_def TRACK_IDXS_def
  allocNoteD_def fastPathD_def tryOrderOf_def idxByPitchOf_def Math_max_def Math_min_def
  midiOfNote_def midiOfNumber_def tryTrackD_def overlapsD_def EPS_D_def MIN_DURATION_D_def
  setIfAbsent_def sortByTimeD_def Let_def enumerate_eq_zip rawNote_def

section \<open>Lemmas about the building blocks\<close>

lemma overlaps_sym: "overlaps a b = overlaps b a"
  by (auto simp: overlaps_def)

lemma findOverlap_None_iff: "findOverlap note ns = None \<longleftrightarrow> (\<forall>n\<in>set ns. \<not> overlaps note n)"
  by (induction ns) (auto split: option.splits)


lemma numsOf_undefined: "vs \<noteq> [] \<Longrightarrow> numsOf (map midiOfNumber vs) = None"
  by (cases vs) (simp_all add: midiOfNumber_def)

lemma Math_min_broken: "\<not> strictEq m (Math_min (map midiOfNumber ts))"
  by (cases ts) (simp_all add: Math_min_def midiOfNumber_def)

lemma Math_min_broken_comp: "\<not> strictEq m (Math_min (map (midiOfNumber \<circ> f) ns))"
  using Math_min_broken[of m "map f ns"] by simp

lemma numsOf_midi: "numsOf (map midiOfNote ns) = Some (map (\<lambda>n. of_int (midi n)) ns)"
  by (induction ns) (simp_all add: midiOfNote_def)

lemma fold_max_Max: "fold max xs (x::'a::linorder) = Max (set (x # xs))"
  by (rule Max.set_eq_fold[symmetric])

lemma Math_max_notes:
  "ns \<noteq> [] \<Longrightarrow> Math_max (map midiOfNote ns) = Finite (of_int (Max (midi ` set ns)))"
proof -
  assume ne: "ns \<noteq> []"
  then obtain n ns' where ns: "ns = n # ns'" by (cases ns) auto
  have "Math_max (map midiOfNote ns) = Finite (Max (set (map (\<lambda>n. real_of_int (midi n)) ns)))"
    unfolding Math_max_def numsOf_midi ns by (simp add: fold_max_Max)
  also have "Max (set (map (\<lambda>n. real_of_int (midi n)) ns)) = real_of_int (Max (midi ` set ns))"
  proof -
    have "real_of_int (Max (midi ` set ns)) = Max (real_of_int ` (midi ` set ns))"
      by (rule mono_Max_commute) (use ne in \<open>auto simp: mono_def\<close>)
    then show ?thesis by (simp add: image_image)
  qed
  finally show ?thesis .
qed

lemma idxByPitchOf_cases: "idxByPitchOf allNotes note = 0 \<or> idxByPitchOf allNotes note = 1"
  by (simp add: idxByPitchOf_def Let_def Math_min_broken_comp)

lemma idxByPitch_char: "note \<in> set allNotes \<Longrightarrow>
   idxByPitchOf allNotes note =
     (if midi note = Max (midi ` {n \<in> set allNotes. time n = time note}) then 0 else 1)"
proof -
  assume m: "note \<in> set allNotes"
  let ?at = "filter (\<lambda>n. time n = time note) allNotes"
  have ne: "?at \<noteq> []" using m by (auto simp: filter_empty_conv)
  have s: "set ?at = {n \<in> set allNotes. time n = time note}" by auto
  show ?thesis
    unfolding idxByPitchOf_def Let_def Math_max_notes[OF ne] s
    by (simp add: Math_min_broken_comp)
qed


lemma tryTrack_cases:
  assumes "tryTrack note xs = Some (r, xs')"
  shows "(r = Verbatim \<and> findOverlap note xs = None \<and> xs' = xs @ [note])
       \<or> (\<exists>k. r = TruncatedIncoming \<and> findOverlap note xs = Some k
              \<and> time note < time (xs ! k) \<and> endTime note > time (xs ! k) + EPS
              \<and> time (xs ! k) - time note > MIN_DURATION
              \<and> xs' = xs @ [note\<lparr> duration := time (xs ! k) - time note, endTime := time (xs ! k) \<rparr>])
       \<or> (\<exists>k. r = TruncatedExisting \<and> findOverlap note xs = Some k
              \<and> endTime (xs ! k) > time note + EPS \<and> endTime (xs ! k) > endTime note + EPS
              \<and> time (xs ! k) < time note - EPS \<and> time note - time (xs ! k) > MIN_DURATION
              \<and> xs' = xs[k := (xs ! k)\<lparr> duration := time note - time (xs ! k),
                                        endTime := time (xs ! k) + (time note - time (xs ! k)) \<rparr>] @ [note])"
  using assms unfolding tryTrack_def Let_def
  by (auto split: option.splits if_splits)

lemma sorted_wrt_update:
  assumes "sorted_wrt P xs" and "k < length xs"
    and "\<And>y. P (xs ! k) y \<Longrightarrow> P v y" and "\<And>y. P y (xs ! k) \<Longrightarrow> P y v"
  shows "sorted_wrt P (xs[k := v])"
  unfolding sorted_wrt_iff_nth_less
proof (intro allI impI)
  fix i j assume ij: "i < j" "j < length (xs[k := v])"
  then have P: "P (xs ! i) (xs ! j)" using assms(1) by (simp add: sorted_wrt_iff_nth_less)
  show "P (xs[k := v] ! i) (xs[k := v] ! j)"
  proof (cases "i = k")
    case True
    then have "j \<noteq> k" using ij by simp
    with True P assms(3) ij show ?thesis by simp
  next
    case False
    show ?thesis
    proof (cases "j = k")
      case True
      with False P assms(4) ij show ?thesis by simp
    next
      case F2: False
      with False P show ?thesis by simp
    qed
  qed
qed


lemma tryTrack_length:
  "tryTrack note xs = Some (r, xs') \<Longrightarrow> length xs' = Suc (length xs)"
  by (drule tryTrack_cases) auto

lemma scanTracks_result:
  assumes "scanTracks preferIdx note order s = (a, s')"
  shows "(\<not> a \<and> s' = s)
       \<or> (a \<and> (\<exists>idx\<in>set order. \<exists>r xs'. preferIdx \<noteq> Some idx
               \<and> tryTrack note (trackState s ! idx) = Some (r, xs')
               \<and> s' = \<lparr> trackState = (trackState s)[idx := xs'],
                        origTrackToTarget = setIfAbsent (origTrackToTarget s) (origTrack note) idx \<rparr>))"
  using assms
proof (induction order)
  case Nil
  then show ?case by simp
next
  case (Cons idx rest)
  show ?case
  proof (cases "preferIdx = Some idx")
    case True
    with Cons.prems have "scanTracks preferIdx note rest s = (a, s')" by simp
    from Cons.IH[OF this] show ?thesis by auto
  next
    case False
    show ?thesis
    proof (cases "tryTrack note (trackState s ! idx)")
      case None
      with False Cons.prems have "scanTracks preferIdx note rest s = (a, s')" by simp
      from Cons.IH[OF this] show ?thesis by auto
    next
      case (Some p)
      obtain r xs' where p: "p = (r, xs')" by (cases p)
      with Some False Cons.prems show ?thesis by auto
    qed
  qed
qed

lemma fastPath_result:
  assumes "fastPath preferIdx note s = (a, s')"
  shows "(\<not> a \<and> s' = s)
       \<or> (a \<and> (\<exists>p. preferIdx = Some p
               \<and> tryTrack note (trackState s ! p) = Some (Verbatim, trackState s ! p @ [note])
               \<and> s' = s\<lparr> trackState := (trackState s)[p := trackState s ! p @ [note]] \<rparr>))"
  using assms unfolding fastPath_def Let_def tryTrack_def
  by (auto split: option.splits if_splits)

lemma tryOrderOf_Some: "tryOrderOf allNotes (Some p) note = p # filter (\<lambda>i. i \<noteq> p) TRACK_IDXS"
  by (simp add: tryOrderOf_def)

lemma tryOrderOf_None_set: "set (tryOrderOf allNotes None note) = {0, 1, 2}"
  using idxByPitchOf_cases[of allNotes "note"]
  by (auto simp: tryOrderOf_def TRACK_IDXS_def Let_def)

lemma tryOrderOf_bound:
  assumes "\<forall>p. preferIdx = Some p \<longrightarrow> p < 3" and "idx \<in> set (tryOrderOf allNotes preferIdx note)"
  shows "idx < 3"
proof (cases preferIdx)
  case None
  with assms(2) tryOrderOf_None_set show ?thesis by auto
next
  case (Some p)
  with assms show ?thesis by (auto simp: tryOrderOf_Some TRACK_IDXS_def split: if_splits)
qed

text \<open>The effect of one iteration, whichever path it took.\<close>

lemma allocNote_result:
  assumes "allocNote allNotes s note = (a, s')"
  shows "(\<not> a \<and> s' = s)
       \<or> (a \<and> (\<exists>idx\<in>set (tryOrderOf allNotes (origTrackToTarget s (origTrack note)) note).
               \<exists>r xs'. tryTrack note (trackState s ! idx) = Some (r, xs')
               \<and> trackState s' = (trackState s)[idx := xs']
               \<and> origTrackToTarget s' = setIfAbsent (origTrackToTarget s) (origTrack note) idx))"
proof -
  let ?p = "origTrackToTarget s (origTrack note)"
  obtain a1 s1 where fp: "fastPath ?p note s = (a1, s1)" by (cases "fastPath ?p note s")
  show ?thesis
  proof (cases a1)
    case True
    with fp assms have e: "a = True" "s' = s1" by (simp_all add: allocNote_def Let_def)
    from fastPath_result[OF fp] True obtain p where p: "?p = Some p"
      "tryTrack note (trackState s ! p) = Some (Verbatim, trackState s ! p @ [note])"
      "s1 = s\<lparr> trackState := (trackState s)[p := trackState s ! p @ [note]] \<rparr>" by auto
    have "p \<in> set (tryOrderOf allNotes ?p note)" by (simp add: p(1) tryOrderOf_Some)
    moreover have "origTrackToTarget s' = setIfAbsent (origTrackToTarget s) (origTrack note) p"
      using e p by (simp add: setIfAbsent_def)
    ultimately show ?thesis using e p(2,3) by auto
  next
    case False
    with fastPath_result[OF fp] have s1: "s1 = s" by auto
    from False fp assms s1
    have "scanTracks ?p note (tryOrderOf allNotes ?p note) s = (a, s')"
      by (simp add: allocNote_def Let_def)
    from scanTracks_result[OF this] show ?thesis
    proof (elim disjE conjE bexE exE)
      assume "\<not> a" "s' = s"
      then show ?thesis by simp
    next
      fix idx r xs'
      assume a: "a" and idx: "idx \<in> set (tryOrderOf allNotes ?p note)"
        and tt: "tryTrack note (trackState s ! idx) = Some (r, xs')"
        and s': "s' = \<lparr> trackState = (trackState s)[idx := xs'],
                   origTrackToTarget = setIfAbsent (origTrackToTarget s) (origTrack note) idx \<rparr>"
      from s' have "trackState s' = (trackState s)[idx := xs']"
        "origTrackToTarget s' = setIfAbsent (origTrackToTarget s) (origTrack note) idx"
        by simp_all
      with a idx tt show ?thesis by blast
    qed
  qed
qed




lemma wfState_allocNote:
  assumes wf: "wfState s" and run: "allocNote allNotes s x = (a, s')"
  shows "wfState s'"
proof -
  from allocNote_result[OF run] show ?thesis
  proof (elim disjE conjE bexE exE)
    assume "s' = s" with wf show ?thesis by simp
  next
    fix idx r xs'
    assume idx: "idx \<in> set (tryOrderOf allNotes (origTrackToTarget s (origTrack x)) x)"
      and ts: "trackState s' = (trackState s)[idx := xs']"
      and aff: "origTrackToTarget s' = setIfAbsent (origTrackToTarget s) (origTrack x) idx"
    have "idx < 3" by (rule tryOrderOf_bound[OF _ idx]) (use wf in \<open>auto simp: wfState_def\<close>)
    with wf ts aff show ?thesis
      by (auto simp: wfState_def setIfAbsent_def split: option.splits if_splits)
  qed
qed

lemma compareNotes_le: "compareNotes a b \<le> 0 \<longleftrightarrow> noteOrder a b"
  by (auto simp: compareNotes_def noteOrder_def)

lemma noteOrder_trans: "noteOrder a b \<Longrightarrow> noteOrder b c \<Longrightarrow> noteOrder a c"
  by (auto simp: noteOrder_def)

lemma noteOrder_total: "\<not> noteOrder a b \<Longrightarrow> noteOrder b a"
  by (auto simp: noteOrder_def)

lemma mset_insertNote: "mset (insertNote x xs) = add_mset x (mset xs)"
  by (induction xs) auto

lemma set_insertNote: "set (insertNote x xs) = insert x (set xs)"
  by (induction xs) auto

lemma sorted_insertNote:
  "sorted_wrt noteOrder xs \<Longrightarrow> sorted_wrt noteOrder (insertNote x xs)"
proof (induction xs)
  case Nil
  then show ?case by simp
next
  case (Cons y ys)
  show ?case
  proof (cases "noteOrder x y")
    case True
    with Cons.prems show ?thesis
      by (auto simp: compareNotes_le intro: noteOrder_trans)
  next
    case False
    then have "noteOrder y x" by (rule noteOrder_total)
    with False Cons show ?thesis
      by (auto simp: compareNotes_le set_insertNote)
  qed
qed

lemma mset_sortNotes: "mset (sortNotes xs) = mset xs"
  unfolding sortNotes_def by (induction xs) (simp_all add: mset_insertNote)

lemma sorted_sortNotes: "sorted_wrt noteOrder (sortNotes xs)"
  unfolding sortNotes_def by (induction xs) (simp_all add: sorted_insertNote)

lemma set_sortNotes: "set (sortNotes xs) = set xs"
  using mset_sortNotes[of xs] by (metis set_mset_mset)


lemma length_collectNotes: "length (collectNotes tracks) = sum_list (map length tracks)"
proof -
  have "length (concat (map (\<lambda>(i, ns). map (mkNote i) ns) (enumerate k tracks)))
        = sum_list (map length tracks)" for k
    by (induction tracks arbitrary: k) simp_all
  then show ?thesis by (simp add: collectNotes_def)
qed



lemma set_insertByTime: "set (insertByTime x xs) = insert x (set xs)"
  by (induction xs) auto

lemma mset_insertByTime: "mset (insertByTime x xs) = add_mset x (mset xs)"
  by (induction xs) auto

lemma mset_sortByTime: "mset (sortByTime xs) = mset xs"
  unfolding sortByTime_def by (induction xs) (simp_all add: mset_insertByTime)

lemma set_sortByTime: "set (sortByTime xs) = set xs"
  using mset_sortByTime[of xs] by (metis set_mset_mset)

lemma length_sortByTime: "length (sortByTime xs) = length xs"
  using mset_sortByTime[of xs] by (metis size_mset)

section \<open>Lemmas about the loop\<close>

lemma allocLoop_invariant:
  assumes step: "\<And>s x a s'. I s \<Longrightarrow> x \<in> set rest \<Longrightarrow> allocNote allNotes s x = (a, s') \<Longrightarrow> I s'"
    and init: "I s"
  shows "I (snd (allocLoop allNotes rest s))"
  using assms
proof (induction rest arbitrary: s)
  case Nil
  then show ?case by simp
next
  case (Cons x rest)
  obtain a s1 where st: "allocNote allNotes s x = (a, s1)" by (cases "allocNote allNotes s x")
  have "I s1" by (rule Cons.prems(1)[OF Cons.prems(2) _ st]) simp
  have "I (snd (allocLoop allNotes rest s1))"
    by (rule Cons.IH[OF _ \<open>I s1\<close>]) (auto intro: Cons.prems(1))
  then show ?case using st by (simp add: split_beta)
qed

lemma allocNote_dropped: "allocNote allNotes s x = (False, s') \<Longrightarrow> s' = s"
  by (drule allocNote_result) simp

lemma setIfAbsent_keeps: "m k = Some v \<Longrightarrow> setIfAbsent m k' v' k = Some v"
  by (auto simp: setIfAbsent_def split: option.splits)

lemma allocNote_affinity:
  assumes "origTrackToTarget s k = Some v" and "allocNote allNotes s x = (a, s')"
  shows "origTrackToTarget s' k = Some v"
  using allocNote_result[OF assms(2)] assms(1) by (auto simp: setIfAbsent_keeps)

lemma allocNote_count:
  assumes wf: "wfState s" and run: "allocNote allNotes s x = (a, s')"
  shows "totalNotes s' = totalNotes s + (if a then 1 else 0)"
proof -
  from allocNote_result[OF run] show ?thesis
  proof (elim disjE conjE bexE exE)
    assume "\<not> a" "s' = s" then show ?thesis by simp
  next
    fix idx r xs'
    assume a: a and idx: "idx \<in> set (tryOrderOf allNotes (origTrackToTarget s (origTrack x)) x)"
      and tt: "tryTrack x (trackState s ! idx) = Some (r, xs')"
      and ts: "trackState s' = (trackState s)[idx := xs']"
    have "idx < 3" by (rule tryOrderOf_bound[OF _ idx]) (use wf in \<open>auto simp: wfState_def\<close>)
    then have i: "idx < length (map length (trackState s))" using wf by (simp add: wfState_def)
    have "map length (trackState s') = (map length (trackState s))[idx := Suc (length (trackState s ! idx))]"
      by (simp add: ts map_update tryTrack_length[OF tt])
    then have "totalNotes s' = sum_list (map length (trackState s)) + Suc (length (trackState s ! idx))
                 - map length (trackState s) ! idx"
      unfolding totalNotes_def using sum_list_update[OF i] by simp
    also have "map length (trackState s) ! idx = length (trackState s ! idx)" using i by simp
    finally show ?thesis using a by (simp add: totalNotes_def)
  qed
qed

lemma allocLoop_count:
  assumes "wfState s" and "allocLoop allNotes rest s = (d, s')"
  shows "totalNotes s' + length d = totalNotes s + length rest"
  using assms
proof (induction rest arbitrary: s d s')
  case Nil
  then show ?case by simp
next
  case (Cons x rest)
  obtain a s1 where st: "allocNote allNotes s x = (a, s1)" by (cases "allocNote allNotes s x")
  obtain d1 s2 where lp: "allocLoop allNotes rest s1 = (d1, s2)" by (cases "allocLoop allNotes rest s1")
  from Cons.prems(2) st lp have e: "s' = s2" "d = (if a then d1 else x # d1)" by simp_all
  have wf1: "wfState s1" by (rule wfState_allocNote[OF Cons.prems(1) st])
  from Cons.IH[OF wf1 lp] allocNote_count[OF Cons.prems(1) st] e show ?case by auto
qed

lemma length_allNotes: "length (allNotesOf tracks) = sum_list (map length tracks)"
  using mset_sortNotes[of "collectNotes tracks"] length_collectNotes[of tracks]
  by (metis allNotesOf_def size_mset)







lemma allocLoop_affinity:
  assumes "origTrackToTarget s k = Some v"
  shows "origTrackToTarget (snd (allocLoop allNotes rest s)) k = Some v"
  using _ assms
proof (rule allocLoop_invariant[where I = "\<lambda>s. origTrackToTarget s k = Some v"])
  fix s x a s'
  assume "origTrackToTarget s k = Some v" "allocNote allNotes s x = (a, s')"
  then show "origTrackToTarget s' k = Some v" by (rule allocNote_affinity)
qed

lemma Max_midi_filter:
  "set (map midi (filter P ns)) = midi ` {n \<in> set ns. P n}"
  by auto

text \<open>A note that every track rejects.\<close>

lemma scanTracks_all_rejected:
  assumes "\<forall>idx\<in>set order. preferIdx = Some idx \<or> tryTrack x (trackState s ! idx) = None"
  shows "scanTracks preferIdx x order s = (False, s)"
  using assms by (induction order) auto

lemma tryTrack_rejects:
  assumes "findOverlap x xs = Some j" and "time (xs ! j) \<le> time x"
    and "endTime (xs ! j) \<le> endTime x + EPS"
  shows "tryTrack x xs = None"
  using assms by (simp add: tryTrack_def Let_def)

lemma allocNote_all_busy:
  assumes wf: "\<forall>p. origTrackToTarget s (origTrack x) = Some p \<longrightarrow> p < 3"
    and busy: "\<forall>k\<in>set TRACK_IDXS. \<exists>j. findOverlap x (trackState s ! k) = Some j
                 \<and> time (trackState s ! k ! j) \<le> time x
                 \<and> endTime (trackState s ! k ! j) \<le> endTime x + EPS"
  shows "allocNote allNotes s x = (False, s)"
proof -
  let ?p = "origTrackToTarget s (origTrack x)"
  have b3: "tryTrack x (trackState s ! k) = None \<and> findOverlap x (trackState s ! k) \<noteq> None"
    if "k < 3" for k
  proof -
    from that have "k \<in> set TRACK_IDXS" by (auto simp: TRACK_IDXS_def)
    with busy obtain j where "findOverlap x (trackState s ! k) = Some j"
      "time (trackState s ! k ! j) \<le> time x" "endTime (trackState s ! k ! j) \<le> endTime x + EPS"
      by blast
    then show ?thesis by (simp add: tryTrack_rejects)
  qed
  have fp: "fastPath ?p x s = (False, s)"
  proof (cases ?p)
    case None
    then show ?thesis by (simp add: fastPath_def)
  next
    case (Some p)
    with wf have "p < 3" by simp
    with b3 Some show ?thesis by (auto simp: fastPath_def Let_def)
  qed
  have "scanTracks ?p x (tryOrderOf allNotes ?p x) s = (False, s)"
  proof (rule scanTracks_all_rejected, intro ballI disjI2)
    fix idx assume "idx \<in> set (tryOrderOf allNotes ?p x)"
    with wf have "idx < 3" by (rule tryOrderOf_bound)
    with b3 show "tryTrack x (trackState s ! idx) = None" by simp
  qed
  with fp show ?thesis by (simp add: allocNote_def Let_def)
qed

text \<open>The loop as a fold, and the sort seen through the tagging.\<close>

lemma allocLoop_fold:
  "snd (allocLoop allNotes xs s) = foldl (\<lambda>s n. snd (allocNote allNotes s n)) s xs"
  by (induction xs arbitrary: s) (simp_all add: split_beta)

lemma allocLoop_snoc:
  "allocLoop allNotes (xs @ [x]) s =
     (let (dropped, s') = allocLoop allNotes xs s;
          (assigned, s'') = allocNote allNotes s' x
      in (if assigned then dropped else dropped @ [x], s''))"
  by (induction xs arbitrary: s) (simp_all add: split_beta Let_def)

lemma insertNote_map:
  "\<exists>ps'. insertNote (f q) (map f ps) = map f ps' \<and> mset ps' = add_mset q (mset ps)"
proof (induction ps)
  case Nil
  have "insertNote (f q) (map f []) = map f [q]" by simp
  then show ?case by (metis mset.simps(2))
next
  case (Cons p ps)
  then obtain ps' where ps': "insertNote (f q) (map f ps) = map f ps'" "mset ps' = add_mset q (mset ps)"
    by blast
  show ?case
  proof (cases "compareNotes (f q) (f p) \<le> 0")
    case True
    then have "insertNote (f q) (map f (p # ps)) = map f (q # p # ps)" by simp
    moreover have "mset (q # p # ps) = add_mset q (mset (p # ps))" by simp
    ultimately show ?thesis by blast
  next
    case False
    then have "insertNote (f q) (map f (p # ps)) = map f (p # ps')" by (simp add: ps'(1))
    moreover have "mset (p # ps') = add_mset q (mset (p # ps))" by (simp add: ps'(2))
    ultimately show ?thesis by blast
  qed
qed

lemma sortNotes_map:
  "\<exists>ps. sortNotes (map f qs) = map f ps \<and> mset ps = mset qs"
proof (induction qs)
  case Nil
  show ?case by (simp add: sortNotes_def)
next
  case (Cons q qs)
  then obtain ps where ps: "sortNotes (map f qs) = map f ps" "mset ps = mset qs" by blast
  from insertNote_map[of f q ps] obtain ps' where
    "insertNote (f q) (map f ps) = map f ps'" "mset ps' = add_mset q (mset ps)" by blast
  with ps have "sortNotes (map f (q # qs)) = map f ps' \<and> mset ps' = mset (q # qs)"
    by (simp add: sortNotes_def)
  then show ?case by blast
qed

lemma collectNotes_map:
  "collectNotes tracks
     = map (\<lambda>(i, r). mkNote i r) (concat (map (\<lambda>(i, rs). map (Pair i) rs) (enumerate 0 tracks)))"
  by (simp add: collectNotes_def map_concat comp_def case_prod_unfold)

lemma mkNote_fields:
  "midi (mkNote i r) = raw_midi r \<and> time (mkNote i r) = raw_time r
   \<and> duration (mkNote i r) = raw_duration r \<and> velocity (mkNote i r) = raw_velocity r
   \<and> origTrack (mkNote i r) = i"
  by (simp add: mkNote_def)

section \<open>Lemmas about rounding\<close>

lemma binade_bounds:
  assumes "x \<noteq> 0"
  shows "(2::real) powr (of_int (binade x)) \<le> \<bar>x\<bar>" and "\<bar>x\<bar> < (2::real) powr (of_int (binade x + 1))"
proof -
  have "(2::real) powr (of_int (binade x)) \<le> \<bar>x\<bar> \<and> \<bar>x\<bar> < (2::real) powr (of_int (binade x + 1))"
  proof (cases "1 \<le> \<bar>x\<bar>")
    case True
    define n where "n = \<lfloor>\<bar>x\<bar>\<rfloor>"
    have n: "0 < n" using True by (simp add: n_def)
    have b: "binade x = bitlen n - 1" using True by (simp add: binade_def n_def)
    have b1: "1 \<le> bitlen n" using n by (simp add: bitlen_alt_def)
    from bitlen_bounds[OF n] have lo: "2 ^ nat (bitlen n - 1) \<le> n" and hi: "n < 2 ^ nat (bitlen n)"
      by auto
    have "(2::real) powr (of_int (bitlen n - 1)) = 2 ^ nat (bitlen n - 1)"
      using b1 powr_int[of 2 "bitlen n - 1"] by simp
    also have "\<dots> = of_int (2 ^ nat (bitlen n - 1))" by simp
    also have "\<dots> \<le> of_int n" using lo by (simp only: of_int_le_iff)
    also have "\<dots> \<le> \<bar>x\<bar>" by (simp add: n_def)
    finally have 1: "(2::real) powr (of_int (binade x)) \<le> \<bar>x\<bar>" by (simp add: b)
    have "n + 1 \<le> 2 ^ nat (bitlen n)" using hi by simp
    then have "(of_int (n + 1) :: real) \<le> of_int (2 ^ nat (bitlen n))" by (simp only: of_int_le_iff)
    moreover have "\<bar>x\<bar> < of_int (n + 1)" by (simp add: n_def)
    ultimately have "\<bar>x\<bar> < 2 ^ nat (bitlen n)" by simp
    also have "\<dots> = (2::real) powr (of_int (bitlen n))"
      using b1 powr_int[of 2 "bitlen n"] by simp
    finally have 2: "\<bar>x\<bar> < (2::real) powr (of_int (binade x + 1))" by (simp add: b)
    from 1 2 show ?thesis by simp
  next
    case False
    define y where "y = 1 / \<bar>x\<bar>"
    define m where "m = \<lceil>y\<rceil> - 1"
    have x0: "0 < \<bar>x\<bar>" using assms by simp
    have y1: "1 < y" using False x0 by (simp add: y_def)
    have xy: "\<bar>x\<bar> = 1 / y" by (simp add: y_def)
    have m: "0 < m" using y1 by (simp add: m_def)
    have b: "binade x = - bitlen m" using False by (simp add: binade_def m_def y_def)
    have b1: "1 \<le> bitlen m" using m by (simp add: bitlen_alt_def)
    from bitlen_bounds[OF m] have lo: "2 ^ nat (bitlen m - 1) \<le> m" and hi: "m < 2 ^ nat (bitlen m)"
      by auto
    have my: "of_int m < y" "y \<le> of_int (m + 1)" by (simp_all add: m_def) linarith+
    have "m + 1 \<le> 2 ^ nat (bitlen m)" using hi by simp
    then have "(of_int (m + 1) :: real) \<le> of_int (2 ^ nat (bitlen m))" by (simp only: of_int_le_iff)
    with my(2) have yhi: "y \<le> 2 ^ nat (bitlen m)" by simp
    have "(2::real) ^ nat (bitlen m - 1) = of_int (2 ^ nat (bitlen m - 1))" by simp
    also have "\<dots> \<le> of_int m" using lo by (simp only: of_int_le_iff)
    also have "\<dots> < y" by (rule my(1))
    finally have ylo: "2 ^ nat (bitlen m - 1) < y" .
    have p1: "(2::real) powr (of_int (- bitlen m)) = 1 / 2 ^ nat (bitlen m)"
      using b1 powr_int[of 2 "- bitlen m"] by simp
    have p2: "(2::real) powr (of_int (- bitlen m + 1)) = 1 / 2 ^ nat (bitlen m - 1)"
    proof (cases "bitlen m = 1")
      case True
      then show ?thesis by simp
    next
      case False
      with b1 have "\<not> 0 \<le> - bitlen m + 1" by simp
      moreover have "nat (- (- bitlen m + 1)) = nat (bitlen m - 1)" by simp
      ultimately show ?thesis using powr_int[of 2 "- bitlen m + 1"] by simp
    qed
    have 1: "(2::real) powr (of_int (binade x)) \<le> \<bar>x\<bar>"
      unfolding b p1 xy using yhi y1 by (simp add: field_simps)
    have 2: "\<bar>x\<bar> < (2::real) powr (of_int (binade x + 1))"
      unfolding b p2 xy using ylo y1 by (simp add: field_simps)
    from 1 2 show ?thesis by simp
  qed
  then show "(2::real) powr (of_int (binade x)) \<le> \<bar>x\<bar>"
    and "\<bar>x\<bar> < (2::real) powr (of_int (binade x + 1))" by simp_all
qed

lemma binade_log:
  assumes "x \<noteq> 0"
  shows "binade x = \<lfloor>log 2 \<bar>x\<bar>\<rfloor>"
proof -
  have "\<lfloor>log 2 \<bar>x\<bar>\<rfloor> = binade x"
  proof (rule floor_unique)
    show "of_int (binade x) \<le> log 2 \<bar>x\<bar>"
      using binade_bounds(1)[OF assms] assms by (simp add: le_log_iff)
    show "log 2 \<bar>x\<bar> < of_int (binade x) + 1"
      using binade_bounds(2)[OF assms] assms by (simp add: log_less_iff add.commute)
  qed
  then show ?thesis by simp
qed

lemma roundDouble_log:
  "roundDouble x =
     (if x = 0 then 0
      else (let q = (2::real) powr (of_int (\<lfloor>log 2 \<bar>x\<bar>\<rfloor> - 52))
            in of_int (roundEven (x / q)) * q))"
proof (cases "x = 0")
  case True
  then show ?thesis by (simp add: roundDouble_def)
next
  case False
  have "(2::real) powr (of_int (\<lfloor>log 2 \<bar>x\<bar>\<rfloor> - 52)) = 2 powi (binade x - 52)"
    using powr_real_of_int'[of 2 "binade x - 52"] binade_log[OF False] by simp
  then show ?thesis by (simp only: roundDouble_def Let_def False if_False)
qed

lemma roundDouble_binade:
  assumes "(2::real) powr (of_int n) \<le> \<bar>x\<bar>" and "\<bar>x\<bar> < (2::real) powr (of_int (n + 1))"
  shows "roundDouble x = of_int (roundEven (x / (2::real) powr (of_int (n - 52)))) * (2::real) powr (of_int (n - 52))"
proof -
  have "0 < (2::real) powr (of_int n)" by simp
  with assms(1) have x: "x \<noteq> 0" by auto
  have "\<lfloor>log 2 \<bar>x\<bar>\<rfloor> = n"
  proof (rule floor_unique)
    show "of_int n \<le> log 2 \<bar>x\<bar>" using assms(1) x by (simp add: le_log_iff)
    show "log 2 \<bar>x\<bar> < of_int n + 1" using assms(2) x by (simp add: log_less_iff add.commute)
  qed
  then show ?thesis using x by (simp add: roundDouble_log Let_def)
qed

lemma roundEven_err: "\<bar>of_int (roundEven y) - y\<bar> \<le> 1 / 2"
  unfolding roundEven_def Let_def by (auto simp: abs_if) linarith+

lemma roundDouble_err: "\<bar>roundDouble x - x\<bar> \<le> \<bar>x\<bar> / 2 ^ 53"
proof (cases "x = 0")
  case True
  then show ?thesis by (simp add: roundDouble_log)
next
  case False
  define e where "e = \<lfloor>log 2 \<bar>x\<bar>\<rfloor>"
  define q where "q = (2::real) powr (of_int (e - 52))"
  have q: "0 < q" by (simp add: q_def)
  have rd: "roundDouble x = of_int (roundEven (x / q)) * q"
    using False by (simp add: roundDouble_log Let_def q_def e_def)
  have "roundDouble x - x = (of_int (roundEven (x / q)) - x / q) * q"
    using q by (simp add: rd algebra_simps)
  then have "\<bar>roundDouble x - x\<bar> = \<bar>of_int (roundEven (x / q)) - x / q\<bar> * q"
    using q by (simp add: abs_mult)
  also have "\<dots> \<le> (1 / 2) * q" using roundEven_err[of "x / q"] q by (intro mult_right_mono) auto
  also have "\<dots> = (2::real) powr (of_int e) / 2 ^ 53"
  proof -
    have "q = (2::real) powr (of_int e) / 2 ^ 52"
      by (simp add: q_def powr_diff powr_realpow[symmetric])
    then show ?thesis by simp
  qed
  also have "(2::real) powr (of_int e) \<le> \<bar>x\<bar>"
  proof -
    have "of_int e \<le> log 2 \<bar>x\<bar>" by (simp add: e_def)
    then have "(2::real) powr (of_int e) \<le> (2::real) powr (log 2 \<bar>x\<bar>)" by simp
    also have "\<dots> = \<bar>x\<bar>" using False by simp
    finally show ?thesis .
  qed
  finally show ?thesis by (simp add: divide_right_mono)
qed

lemma roundDouble_near:
  assumes "\<bar>x\<bar> \<le> 2 ^ 22"
  shows "\<bar>roundDouble x - x\<bar> \<le> 1 / 2 ^ 31"
proof -
  have "\<bar>x\<bar> / 2 ^ 53 \<le> 2 ^ 22 / 2 ^ 53" using assms by (intro divide_right_mono) auto
  also have "\<dots> = (1::real) / 2 ^ 31" by simp
  finally show ?thesis using roundDouble_err[of x] by linarith
qed

lemma roundDouble_sign:
  "(roundDouble x \<le> 0) = (x \<le> 0)" "(roundDouble x = 0) = (x = 0)"
proof -
  have e: "\<bar>roundDouble x - x\<bar> \<le> \<bar>x\<bar> / 2 ^ 53" by (rule roundDouble_err)
  have h: "\<bar>x\<bar> / 2 ^ 53 < \<bar>x\<bar>" if "x \<noteq> 0"
  proof -
    have "\<bar>x\<bar> / 2 ^ 53 = \<bar>x\<bar> * (1 / 2 ^ 53)" by simp
    also have "\<dots> < \<bar>x\<bar> * 1" using that by (intro mult_strict_left_mono) auto
    finally show ?thesis by simp
  qed
  show "(roundDouble x \<le> 0) = (x \<le> 0)"
  proof (cases "x = 0")
    case True
    then show ?thesis by (simp add: roundDouble_log)
  next
    case False
    from h[OF False] e show ?thesis by (auto simp: abs_if split: if_splits)
  qed
  show "(roundDouble x = 0) = (x = 0)"
  proof (cases "x = 0")
    case True
    then show ?thesis by (simp add: roundDouble_log)
  next
    case False
    from h[OF False] e show ?thesis by (auto simp: abs_if split: if_splits)
  qed
qed

lemma roundDouble_ge1:
  fixes n :: nat
  assumes "n \<le> 52" and "2 ^ n \<le> \<bar>x\<bar>" and "\<bar>x\<bar> < 2 ^ Suc n"
  shows "roundDouble x = of_int (roundEven (x * 2 ^ (52 - n))) / 2 ^ (52 - n)"
proof -
  have 1: "(2::real) powr (of_int (int n)) = 2 ^ n" by (simp add: powr_realpow)
  have 2: "(2::real) powr (of_int (int n + 1)) = 2 ^ Suc n"
    using powr_realpow[of 2 "Suc n"] by (simp add: add.commute)
  have "of_int (int n - 52) = - real (52 - n)" using assms(1) by simp
  then have 3: "(2::real) powr (of_int (int n - 52)) = 1 / 2 ^ (52 - n)"
    by (simp only: powr_minus powr_realpow) (simp add: powr_realpow field_simps)
  from roundDouble_binade[of "int n" x] assms(2,3) show ?thesis
    unfolding 1 2 3 by simp
qed

lemma roundDouble_lt1:
  fixes m :: nat
  assumes "1 / 2 ^ m \<le> \<bar>x\<bar>" and "\<bar>x\<bar> < 2 / 2 ^ m"
  shows "roundDouble x = of_int (roundEven (x * 2 ^ (52 + m))) / 2 ^ (52 + m)"
proof -
  have 1: "(2::real) powr (of_int (- int m)) = 1 / 2 ^ m"
    by (simp add: powr_minus powr_realpow field_simps)
  have "of_int (- int m + 1) = 1 - real m" by simp
  then have 2: "(2::real) powr (of_int (- int m + 1)) = 2 / 2 ^ m"
    by (simp only: powr_diff powr_realpow) (simp add: powr_realpow)
  have "of_int (- int m - 52) = - real (52 + m)" by simp
  then have 3: "(2::real) powr (of_int (- int m - 52)) = 1 / 2 ^ (52 + m)"
    by (simp only: powr_minus powr_realpow) (simp add: powr_realpow field_simps)
  from roundDouble_binade[of "- int m" x] assms show ?thesis
    unfolding 1 2 3 by simp
qed

lemma EPS_D_literal: "EPS_D = roundDouble (1 / 1000000)"
  by (simp add: EPS_D_def roundDouble_lt1[of 20] roundEven_def Let_def)

lemma MIN_DURATION_D_literal: "MIN_DURATION_D = roundDouble (1 / 100)"
  by (simp add: MIN_DURATION_D_def roundDouble_lt1[of 7] roundEven_def Let_def)

lemma compareNotesD_le: "compareNotesD a b \<le> 0 \<longleftrightarrow> noteOrder a b"
  by (auto simp: compareNotesD_def noteOrder_def roundDouble_sign)

lemma insertNoteD_eq: "insertNoteD x ys = insertNote x ys"
  by (induction ys) (simp_all add: compareNotesD_le compareNotes_le)

lemma sortNotesD_eq: "sortNotesD xs = sortNotes xs"
  unfolding sortNotesD_def sortNotes_def by (induction xs) (simp_all add: insertNoteD_eq)

lemma insertByTimeD_eq: "insertByTimeD x ys = insertByTime x ys"
  by (induction ys) (simp_all add: roundDouble_sign)

lemma sortByTimeD_eq: "sortByTimeD xs = sortByTime xs"
  unfolding sortByTimeD_def sortByTime_def by (induction xs) (simp_all add: insertByTimeD_eq)

lemma rd_zero: "roundDouble 0 = 0"
  by (simp add: roundDouble_log)

lemmas rd_eval =
  rd_zero roundEven_def
  roundDouble_ge1[of 0] roundDouble_ge1[of 1] roundDouble_ge1[of 2] roundDouble_ge1[of 33]
  roundDouble_lt1[of 1] roundDouble_lt1[of 20]

section \<open>Lemmas about the allocator in double arithmetic\<close>

lemma findOverlapD_None_iff:
  "findOverlapD x ns = None \<longleftrightarrow> (\<forall>n\<in>set ns. \<not> overlapsD x n)"
  by (induction ns) (auto split: option.splits)

lemma findOverlapD_SomeD:
  "findOverlapD x ns = Some k \<Longrightarrow> k < length ns \<and> overlapsD x (ns ! k)"
proof (induction ns arbitrary: k)
  case Nil
  then show ?case by simp
next
  case (Cons n ns)
  show ?case
  proof (cases "overlapsD x n")
    case True
    with Cons.prems show ?thesis by simp
  next
    case False
    with Cons.prems obtain k' where k': "findOverlapD x ns = Some k'" "k = Suc k'"
      by (auto split: option.splits)
    from Cons.IH[OF k'(1)] k'(2) show ?thesis by simp
  qed
qed

lemma tryTrackD_cases:
  assumes "tryTrackD x xs = Some (r, xs')"
  shows "(findOverlapD x xs = None \<and> xs' = xs @ [x])
       \<or> (\<exists>k. findOverlapD x xs = Some k \<and> time x < time (xs ! k))
       \<or> (\<exists>k. findOverlapD x xs = Some k
              \<and> endTime (xs ! k) > roundDouble (time x + EPS_D)
              \<and> endTime (xs ! k) > roundDouble (endTime x + EPS_D)
              \<and> time (xs ! k) < roundDouble (time x - EPS_D)
              \<and> xs' = xs[k := (xs ! k)\<lparr> duration := roundDouble (time x - time (xs ! k)),
                     endTime := roundDouble (time (xs ! k) + roundDouble (time x - time (xs ! k))) \<rparr>]
                     @ [x])"
  using assms unfolding tryTrackD_def Let_def
  by (auto split: option.splits if_splits)

lemma scanTracksD_result:
  assumes "scanTracksD preferIdx x order s = (a, s')"
  shows "s' = s
       \<or> (\<exists>idx\<in>set order. \<exists>r xs'. tryTrackD x (trackState s ! idx) = Some (r, xs')
               \<and> s' = \<lparr> trackState = (trackState s)[idx := xs'],
                        origTrackToTarget = setIfAbsent (origTrackToTarget s) (origTrack x) idx \<rparr>)"
  using assms
proof (induction order)
  case Nil
  then show ?case by simp
next
  case (Cons idx rest)
  show ?case
  proof (cases "preferIdx = Some idx")
    case True
    with Cons.prems have "scanTracksD preferIdx x rest s = (a, s')" by simp
    from Cons.IH[OF this] show ?thesis by auto
  next
    case False
    show ?thesis
    proof (cases "tryTrackD x (trackState s ! idx)")
      case None
      with False Cons.prems have "scanTracksD preferIdx x rest s = (a, s')" by simp
      from Cons.IH[OF this] show ?thesis by auto
    next
      case (Some p)
      obtain r xs' where p: "p = (r, xs')" by (cases p)
      with Some False Cons.prems show ?thesis by auto
    qed
  qed
qed

lemma fastPathD_result:
  assumes "fastPathD preferIdx x s = (a, s')"
  shows "(\<not> a \<and> s' = s)
       \<or> (a \<and> (\<exists>p. preferIdx = Some p
               \<and> tryTrackD x (trackState s ! p) = Some (Verbatim, trackState s ! p @ [x])
               \<and> s' = s\<lparr> trackState := (trackState s)[p := trackState s ! p @ [x]] \<rparr>))"
  using assms unfolding fastPathD_def Let_def tryTrackD_def
  by (auto split: option.splits if_splits)

lemma allocNoteD_result:
  assumes "allocNoteD allNotes s x = (a, s')"
  shows "s' = s
       \<or> (\<exists>idx\<in>set (tryOrderOf allNotes (origTrackToTarget s (origTrack x)) x).
               \<exists>r xs'. tryTrackD x (trackState s ! idx) = Some (r, xs')
               \<and> trackState s' = (trackState s)[idx := xs']
               \<and> origTrackToTarget s' = setIfAbsent (origTrackToTarget s) (origTrack x) idx)"
proof -
  let ?p = "origTrackToTarget s (origTrack x)"
  obtain a1 s1 where fp: "fastPathD ?p x s = (a1, s1)" by (cases "fastPathD ?p x s")
  show ?thesis
  proof (cases a1)
    case True
    with fp assms have e: "s' = s1" by (simp add: allocNoteD_def Let_def)
    from fastPathD_result[OF fp] True obtain p where p: "?p = Some p"
      "tryTrackD x (trackState s ! p) = Some (Verbatim, trackState s ! p @ [x])"
      "s1 = s\<lparr> trackState := (trackState s)[p := trackState s ! p @ [x]] \<rparr>" by auto
    have "p \<in> set (tryOrderOf allNotes ?p x)" by (simp add: p(1) tryOrderOf_Some)
    moreover have "origTrackToTarget s' = setIfAbsent (origTrackToTarget s) (origTrack x) p"
      using e p by (simp add: setIfAbsent_def)
    moreover have "trackState s' = (trackState s)[p := trackState s ! p @ [x]]"
      using e p(3) by simp
    ultimately show ?thesis using p(2) by blast
  next
    case False
    with fastPathD_result[OF fp] have s1: "s1 = s" by auto
    from False fp assms s1
    have "scanTracksD ?p x (tryOrderOf allNotes ?p x) s = (a, s')"
      by (simp add: allocNoteD_def Let_def)
    from scanTracksD_result[OF this] show ?thesis
    proof (elim disjE bexE exE conjE)
      assume "s' = s"
      then show ?thesis by simp
    next
      fix idx r xs'
      assume idx: "idx \<in> set (tryOrderOf allNotes ?p x)"
        and tt: "tryTrackD x (trackState s ! idx) = Some (r, xs')"
        and s': "s' = \<lparr> trackState = (trackState s)[idx := xs'],
                   origTrackToTarget = setIfAbsent (origTrackToTarget s) (origTrack x) idx \<rparr>"
      from s' have "trackState s' = (trackState s)[idx := xs']"
        "origTrackToTarget s' = setIfAbsent (origTrackToTarget s) (origTrack x) idx"
        by simp_all
      with idx tt show ?thesis by blast
    qed
  qed
qed

lemma sep_sym: "sep a b = sep b a"
  by (auto simp: sep_def)

lemma EPS_D_bounds: "3 / 2 ^ 31 \<le> EPS_D" "EPS_D < 1 / 1000000" "0 < EPS_D"
  by (simp_all add: EPS_D_def)

lemma roundDouble_bounds:
  assumes "\<bar>x\<bar> \<le> 2 ^ 22"
  shows "x - 1 / 2 ^ 31 \<le> roundDouble x" and "roundDouble x \<le> x + 1 / 2 ^ 31"
proof -
  have 1: "roundDouble x - x \<le> 1 / 2 ^ 31" by (rule abs_le_D1[OF roundDouble_near[OF assms]])
  have 2: "- (roundDouble x - x) \<le> 1 / 2 ^ 31" by (rule abs_le_D2[OF roundDouble_near[OF assms]])
  from 2 show "x - 1 / 2 ^ 31 \<le> roundDouble x" by linarith
  from 1 show "roundDouble x \<le> x + 1 / 2 ^ 31" by linarith
qed

lemma near_plus:
  assumes "\<bar>a\<bar> \<le> 2 ^ 22 - 1"
  shows "a + EPS_D - 1 / 2 ^ 31 \<le> roundDouble (a + EPS_D)"
    and "roundDouble (a + EPS_D) \<le> a + EPS_D + 1 / 2 ^ 31"
    and "a - EPS_D - 1 / 2 ^ 31 \<le> roundDouble (a - EPS_D)"
    and "roundDouble (a - EPS_D) \<le> a - EPS_D + 1 / 2 ^ 31"
proof -
  from assms EPS_D_bounds have p: "\<bar>a + EPS_D\<bar> \<le> 2 ^ 22" and m: "\<bar>a - EPS_D\<bar> \<le> 2 ^ 22"
    by (simp_all add: abs_le_iff)
  show "a + EPS_D - 1 / 2 ^ 31 \<le> roundDouble (a + EPS_D)" by (rule roundDouble_bounds(1)[OF p])
  show "roundDouble (a + EPS_D) \<le> a + EPS_D + 1 / 2 ^ 31" by (rule roundDouble_bounds(2)[OF p])
  show "a - EPS_D - 1 / 2 ^ 31 \<le> roundDouble (a - EPS_D)" by (rule roundDouble_bounds(1)[OF m])
  show "roundDouble (a - EPS_D) \<le> a - EPS_D + 1 / 2 ^ 31" by (rule roundDouble_bounds(2)[OF m])
qed

lemma not_overlapsD_sep:
  assumes "okNote x" and "okNote n" and "\<not> overlapsD x n"
  shows "sep n x"
proof -
  from assms(2) have t: "\<bar>time n\<bar> \<le> 2 ^ 22 - 1" and e: "\<bar>endTime n\<bar> \<le> 2 ^ 22 - 1"
    by (simp_all add: okNote_def)
  from assms(3) have "endTime x \<le> roundDouble (time n + EPS_D)
      \<or> roundDouble (endTime n - EPS_D) \<le> time x"
    by (simp add: overlapsD_def)
  then show ?thesis
  proof
    assume "endTime x \<le> roundDouble (time n + EPS_D)"
    with near_plus(2)[OF t] have "endTime x \<le> time n + EPS_D + 1 / 2 ^ 30" by simp
    then show ?thesis by (simp add: sep_def)
  next
    assume "roundDouble (endTime n - EPS_D) \<le> time x"
    with near_plus(3)[OF e] have "endTime n \<le> time x + EPS_D + 1 / 2 ^ 30" by simp
    then show ?thesis by (simp add: sep_def)
  qed
qed

lemma truncExisting_facts:
  assumes okx: "okNote x" and oko: "okNote n"
    and g1: "endTime n > roundDouble (time x + EPS_D)"
    and g2: "endTime n > roundDouble (endTime x + EPS_D)"
    and g3: "time n < roundDouble (time x - EPS_D)"
    and n': "n' = n\<lparr> duration := roundDouble (time x - time n),
                endTime := roundDouble (time n + roundDouble (time x - time n)) \<rparr>"
  shows "okNote n'" and "sep n' x"
    and "\<And>b. sep n b \<Longrightarrow> sep n' b" and "\<And>b. sep n b \<Longrightarrow> sep b x"
proof -
  from okx have tx: "\<bar>time x\<bar> \<le> 2 ^ 20" and ex: "\<bar>endTime x\<bar> \<le> 2 ^ 22 - 1"
    by (simp_all add: okNote_def)
  from oko have tn: "\<bar>time n\<bar> \<le> 2 ^ 20" and en: "\<bar>endTime n\<bar> \<le> 2 ^ 22 - 1"
    by (simp_all add: okNote_def)
  define d where "d = roundDouble (time x - time n)"
  have "\<bar>time x - time n\<bar> \<le> 2 ^ 22" using tx tn by (simp add: abs_le_iff)
  note ed = roundDouble_bounds[OF this, folded d_def]
  have "\<bar>time n + d\<bar> \<le> 2 ^ 22" using tx tn ed by (simp add: abs_le_iff)
  note ee = roundDouble_bounds[OF this]
  have f: "time n' = time n" "duration n' = d" "endTime n' = roundDouble (time n + d)"
    by (simp_all add: n' d_def)
  from tx have "\<bar>time x\<bar> \<le> 2 ^ 22 - 1" by simp
  note e1 = near_plus[OF this]
  note e2 = near_plus[OF ex]
  have le: "endTime n' \<le> time x + 1 / 2 ^ 30"
    unfolding f using ed ee by simp
  have ge: "time x - 1 / 2 ^ 30 \<le> endTime n'"
    unfolding f using ed ee by simp
  have "\<bar>endTime n'\<bar> \<le> 2 ^ 22 - 1"
    using le ge tx by (simp add: abs_le_iff)
  moreover have "\<bar>endTime n' - (time n' + duration n')\<bar> \<le> 1 / 2 ^ 31"
    unfolding f using ee by (intro abs_leI) linarith+
  ultimately show "okNote n'"
    unfolding okNote_def using tn by (simp add: f)
  show "sep n' x"
    unfolding sep_def using le EPS_D_bounds(3) by simp
  have shrink: "endTime n' \<le> endTime n"
    using le g1 e1(1) EPS_D_bounds(1) by simp
  show "sep n' b" if "sep n b" for b
    using that shrink unfolding sep_def f by auto
  show "sep b x" if "sep n b" for b
  proof -
    from that have "endTime n \<le> time b + EPS_D + 1 / 2 ^ 30 \<or> endTime b \<le> time n + EPS_D + 1 / 2 ^ 30"
      by (simp add: sep_def)
    then show ?thesis
    proof
      assume "endTime n \<le> time b + EPS_D + 1 / 2 ^ 30"
      with g2 e2(1) EPS_D_bounds(1) have "endTime x \<le> time b + EPS_D + 1 / 2 ^ 30" by simp
      then show ?thesis by (simp add: sep_def)
    next
      assume "endTime b \<le> time n + EPS_D + 1 / 2 ^ 30"
      with g3 e1(4) EPS_D_bounds(1) have "endTime b \<le> time x + EPS_D + 1 / 2 ^ 30" by simp
      then show ?thesis by (simp add: sep_def)
    qed
  qed
qed

lemma tryTrackD_inv:
  assumes inv: "trackInvD (x # rest) xs" and okx: "okNote x"
    and le: "\<forall>m\<in>set rest. time x \<le> time m"
    and tt: "tryTrackD x xs = Some (r, xs')"
  shows "trackInvD rest xs'"
proof -
  from inv have sw: "sorted_wrt sep xs" and ok: "\<forall>n\<in>set xs. okNote n"
    and b: "\<forall>n\<in>set xs. time n \<le> time x" and br: "\<forall>n\<in>set xs. \<forall>m\<in>set rest. time n \<le> time m"
    by (auto simp: trackInvD_def)
  from tryTrackD_cases[OF tt] consider
    (verb) "findOverlapD x xs = None" "xs' = xs @ [x]"
  | (inc) k where "findOverlapD x xs = Some k" "time x < time (xs ! k)"
  | (ex) k where "findOverlapD x xs = Some k"
       "endTime (xs ! k) > roundDouble (time x + EPS_D)"
       "endTime (xs ! k) > roundDouble (endTime x + EPS_D)"
       "time (xs ! k) < roundDouble (time x - EPS_D)"
       "xs' = xs[k := (xs ! k)\<lparr> duration := roundDouble (time x - time (xs ! k)),
                 endTime := roundDouble (time (xs ! k) + roundDouble (time x - time (xs ! k))) \<rparr>]
               @ [x]"
    by (elim disjE exE conjE) blast+
  then show ?thesis
  proof cases
    case verb
    have "sep n x" if "n \<in> set xs" for n
      using that ok okx verb(1) by (intro not_overlapsD_sep) (auto simp: findOverlapD_None_iff)
    then have "sorted_wrt sep xs'" using sw by (simp add: verb(2) sorted_wrt_append)
    then show ?thesis using ok okx le br by (auto simp: trackInvD_def verb(2))
  next
    case inc
    from findOverlapD_SomeD[OF inc(1)] have "xs ! k \<in> set xs" by simp
    with b inc(2) show ?thesis by force
  next
    case ex
    let ?n = "xs ! k"
    define n' where "n' = ?n\<lparr> duration := roundDouble (time x - time ?n),
                 endTime := roundDouble (time ?n + roundDouble (time x - time ?n)) \<rparr>"
    from findOverlapD_SomeD[OF ex(1)] have k: "k < length xs" by simp
    then have mem: "?n \<in> set xs" by simp
    with ok have okn: "okNote ?n" by simp
    note F = truncExisting_facts[OF okx okn ex(2,3,4) n'_def]
    have xs': "xs' = xs[k := n'] @ [x]" by (simp add: ex(5) n'_def)
    have 1: "sorted_wrt sep (xs[k := n'])"
    proof (rule sorted_wrt_update[OF sw k])
      fix y assume "sep ?n y" then show "sep n' y" by (rule F(3))
    next
      fix y assume "sep y ?n"
      then have "sep ?n y" by (simp add: sep_sym)
      then have "sep n' y" by (rule F(3))
      then show "sep y n'" by (simp add: sep_sym)
    qed
    have 2: "sep y x" if y: "y \<in> set (xs[k := n'])" for y
    proof -
      from y obtain i where i: "i < length xs" "y = xs[k := n'] ! i"
        by (auto simp: in_set_conv_nth)
      show ?thesis
      proof (cases "i = k")
        case True
        then have "y = n'" using i k by simp
        then show ?thesis using F(2) by simp
      next
        case False
        then have yi: "y = xs ! i" using i by simp
        have "sep ?n (xs ! i)"
        proof (cases "i < k")
          case True
          then have "sep (xs ! i) ?n" using sw k by (simp add: sorted_wrt_iff_nth_less)
          then show ?thesis by (simp add: sep_sym)
        next
          case F2: False
          then have "k < i" using False by simp
          then show ?thesis using sw i by (simp add: sorted_wrt_iff_nth_less)
        qed
        then show ?thesis unfolding yi by (rule F(4))
      qed
    qed
    have 3: "okNote y \<and> (\<forall>m\<in>set rest. time y \<le> time m)" if y: "y \<in> set xs'" for y
    proof -
      from y xs' have "y = x \<or> y \<in> set (xs[k := n'])" by auto
      then have "y = x \<or> y = n' \<or> y \<in> set xs"
        using set_update_subset_insert[of xs k n'] by auto
      moreover have "time n' = time ?n" by (simp add: n'_def)
      ultimately show ?thesis using okx le F(1) ok br mem by auto
    qed
    show ?thesis unfolding trackInvD_def
      using 1 2 3 by (auto simp: xs' sorted_wrt_append)
  qed
qed

lemma wfState_allocNoteD:
  assumes wf: "wfState s" and run: "allocNoteD allNotes s x = (a, s')"
  shows "wfState s'"
proof -
  from allocNoteD_result[OF run] show ?thesis
  proof (elim disjE conjE bexE exE)
    assume "s' = s" with wf show ?thesis by simp
  next
    fix idx r xs'
    assume idx: "idx \<in> set (tryOrderOf allNotes (origTrackToTarget s (origTrack x)) x)"
      and ts: "trackState s' = (trackState s)[idx := xs']"
      and aff: "origTrackToTarget s' = setIfAbsent (origTrackToTarget s) (origTrack x) idx"
    have "idx < 3" by (rule tryOrderOf_bound[OF _ idx]) (use wf in \<open>auto simp: wfState_def\<close>)
    with wf ts aff show ?thesis
      by (auto simp: wfState_def setIfAbsent_def split: option.splits if_splits)
  qed
qed

lemma trackInvD_tail: "trackInvD (x # rest) xs \<Longrightarrow> trackInvD rest xs"
  by (simp add: trackInvD_def)

lemma stateInvD_allocNoteD:
  assumes inv: "stateInvD (x # rest) s" and okx: "okNote x"
    and le: "\<forall>m\<in>set rest. time x \<le> time m"
    and run: "allocNoteD allNotes s x = (a, s')"
  shows "stateInvD rest s'"
proof -
  from inv have wf: "wfState s" by (simp add: stateInvD_def)
  have wf': "wfState s'" by (rule wfState_allocNoteD[OF wf run])
  from allocNoteD_result[OF run] have "\<forall>xs\<in>set (trackState s'). trackInvD rest xs"
  proof (elim disjE conjE bexE exE)
    assume "s' = s" with inv show ?thesis by (auto simp: stateInvD_def dest: trackInvD_tail)
  next
    fix idx r xs'
    assume idx: "idx \<in> set (tryOrderOf allNotes (origTrackToTarget s (origTrack x)) x)"
      and tt: "tryTrackD x (trackState s ! idx) = Some (r, xs')"
      and ts: "trackState s' = (trackState s)[idx := xs']"
    have "idx < 3" by (rule tryOrderOf_bound[OF _ idx]) (use wf in \<open>auto simp: wfState_def\<close>)
    then have "trackState s ! idx \<in> set (trackState s)" using wf by (simp add: wfState_def)
    with inv have "trackInvD (x # rest) (trackState s ! idx)" by (simp add: stateInvD_def)
    from tryTrackD_inv[OF this okx le tt] have new: "trackInvD rest xs'" .
    show ?thesis
    proof
      fix ys assume "ys \<in> set (trackState s')"
      then have "ys = xs' \<or> ys \<in> set (trackState s)"
        using set_update_subset_insert[of "trackState s" idx xs'] ts by auto
      with new inv show "trackInvD rest ys" by (auto simp: stateInvD_def dest: trackInvD_tail)
    qed
  qed
  with wf' show ?thesis by (simp add: stateInvD_def)
qed

lemma stateInvD_allocLoopD:
  assumes "sorted_wrt (\<lambda>a b. time a \<le> time b) rest" and "\<forall>n\<in>set rest. okNote n"
    and "stateInvD rest s"
  shows "stateInvD [] (snd (allocLoopD allNotes rest s))"
  using assms
proof (induction rest arbitrary: s)
  case Nil
  then show ?case by simp
next
  case (Cons x rest)
  obtain a s1 where st: "allocNoteD allNotes s x = (a, s1)" by (cases "allocNoteD allNotes s x")
  from Cons.prems(1,2) have "stateInvD rest s1"
    by (intro stateInvD_allocNoteD[OF Cons.prems(3) _ _ st]) auto
  from Cons.IH[OF _ _ this] Cons.prems(1,2) st show ?case by (simp add: split_beta)
qed

lemma stateInvD_init: "stateInvD rest initState"
  by (simp add: stateInvD_def wfState_def trackInvD_def initState_def TRACK_IDXS_def)

lemma set_collectNotesD:
  "set (collectNotesD tracks) = {mkNoteD i r | i r. i < length tracks \<and> r \<in> set (tracks ! i)}"
proof -
  have z: "set (enumerate 0 tracks) = {(i, tracks ! i) | i. i < length tracks}"
    by (auto simp: in_set_enumerate_eq)
  show ?thesis unfolding collectNotesD_def set_concat set_map z by auto
qed

lemma okNote_mkNoteD:
  assumes "\<bar>raw_time r\<bar> \<le> 2 ^ 20" and "\<bar>raw_duration r\<bar> \<le> 2 ^ 20"
  shows "okNote (mkNoteD i r)"
proof -
  have "\<bar>raw_time r + raw_duration r\<bar> \<le> 2 ^ 22" using assms by (simp add: abs_le_iff)
  note b = roundDouble_bounds[OF this]
  have "\<bar>roundDouble (raw_time r + raw_duration r)\<bar> \<le> 2 ^ 22 - 1"
    using b assms by (simp add: abs_le_iff)
  moreover have "\<bar>roundDouble (raw_time r + raw_duration r) - (raw_time r + raw_duration r)\<bar>
      \<le> 1 / 2 ^ 31"
    using b by (intro abs_leI) linarith+
  ultimately show ?thesis using assms(1) by (simp add: okNote_def mkNoteD_def)
qed

lemma sorted_time_allNotesD: "sorted_wrt (\<lambda>a b. time a \<le> time b) (allNotesOfD tracks)"
  unfolding allNotesOfD_def sortNotesD_eq
  by (rule sorted_wrt_mono_rel[OF _ sorted_sortNotes]) (auto simp: noteOrder_def)

lemma okNote_allNotesD:
  assumes "\<forall>tr\<in>set tracks. \<forall>r\<in>set tr. \<bar>raw_time r\<bar> \<le> 2 ^ 20 \<and> \<bar>raw_duration r\<bar> \<le> 2 ^ 20"
    and "n \<in> set (allNotesOfD tracks)"
  shows "okNote n"
proof -
  from assms(2) have "n \<in> {mkNoteD i r | i r. i < length tracks \<and> r \<in> set (tracks ! i)}"
    by (simp add: allNotesOfD_def sortNotesD_eq set_sortNotes set_collectNotesD)
  then obtain i r where ir: "i < length tracks" "r \<in> set (tracks ! i)" "n = mkNoteD i r"
    by blast
  from ir(1) have "tracks ! i \<in> set tracks" by simp
  with assms(1) ir(2) have "\<bar>raw_time r\<bar> \<le> 2 ^ 20 \<and> \<bar>raw_duration r\<bar> \<le> 2 ^ 20" by blast
  then show ?thesis unfolding ir(3) by (intro okNote_mkNoteD) simp_all
qed

lemma stateInvD_allocateD:
  assumes "\<forall>tr\<in>set tracks. \<forall>r\<in>set tr. \<bar>raw_time r\<bar> \<le> 2 ^ 20 \<and> \<bar>raw_duration r\<bar> \<le> 2 ^ 20"
  shows "stateInvD [] (snd (allocateD tracks))"
  unfolding allocateD_def Let_def
  by (rule stateInvD_allocLoopD[OF sorted_time_allNotesD _ stateInvD_init])
     (use assms in \<open>blast intro: okNote_allNotesD\<close>)

lemma okNote_end: "okNote n \<Longrightarrow> time n + duration n \<le> endTime n + 1 / 2 ^ 31"
proof -
  assume "okNote n"
  then have "\<bar>endTime n - (time n + duration n)\<bar> \<le> 1 / 2 ^ 31" by (simp add: okNote_def)
  from abs_le_D2[OF this] show ?thesis by linarith
qed

lemma sep_insertByTime:
  "sorted_wrt sep (x # xs) \<Longrightarrow> sorted_wrt sep (insertByTime x xs)"
proof (induction xs)
  case Nil
  then show ?case by simp
next
  case (Cons y ys)
  from Cons.prems have "sorted_wrt sep (x # ys)" by auto
  from Cons.IH[OF this] Cons.prems show ?case
    by (auto simp: set_insertByTime sep_sym)
qed

lemma sep_sortByTime: "sorted_wrt sep xs \<Longrightarrow> sorted_wrt sep (sortByTime xs)"
proof (induction xs)
  case Nil
  then show ?case by (simp add: sortByTime_def)
next
  case (Cons x xs)
  then have "sorted_wrt sep (x # sortByTime xs)"
    by (auto simp: set_sortByTime)
  then show ?case using sep_insertByTime by (simp add: sortByTime_def)
qed

section \<open>The claims\<close>

text \<open>
  C1 (as amended). In double arithmetic two notes of one output track can overlap by
  more than \<open>EPS\<close>: the bounds of the overlap test are rounded. What holds instead:
  for every input whose start times and durations have magnitude at most \<open>2^20\<close>
  seconds, on each of the three output tracks any two distinct notes have intervals
  \<open>[start, start + duration)\<close> of which one ends no later than \<open>EPS + 2^-29\<close> after the
  other starts.
\<close>

theorem tracks_overlap_bound:
  assumes "\<forall>tr\<in>set tracks. \<forall>r\<in>set tr. \<bar>raw_time r\<bar> \<le> 2 ^ 20 \<and> \<bar>raw_duration r\<bar> \<le> 2 ^ 20"
    and "k < 3" and "i < length (processMidiD tracks ! k)"
    and "j < length (processMidiD tracks ! k)" and "i \<noteq> j"
  shows "time (processMidiD tracks ! k ! i) + duration (processMidiD tracks ! k ! i)
            \<le> time (processMidiD tracks ! k ! j) + EPS + 1 / 2 ^ 29
       \<or> time (processMidiD tracks ! k ! j) + duration (processMidiD tracks ! k ! j)
            \<le> time (processMidiD tracks ! k ! i) + EPS + 1 / 2 ^ 29"
proof -
  let ?s = "snd (allocateD tracks)"
  let ?xs = "trackState ?s ! k"
  let ?ys = "processMidiD tracks ! k"
  from stateInvD_allocateD[OF assms(1)] have wf: "length (trackState ?s) = 3"
    and inv: "\<forall>xs\<in>set (trackState ?s). trackInvD [] xs"
    by (simp_all add: stateInvD_def wfState_def)
  from wf assms(2) have ys: "?ys = sortByTime ?xs" by (simp add: processMidiD_def sortByTimeD_eq)
  from wf assms(2) inv have ti: "trackInvD [] ?xs" by simp
  have "sorted_wrt sep ?xs" using ti by (simp add: trackInvD_def)
  then have sw: "sorted_wrt sep ?ys" unfolding ys by (rule sep_sortByTime)
  have s: "sep (?ys ! i) (?ys ! j)"
  proof (cases "i < j")
    case True
    with sw assms(4) show ?thesis by (simp add: sorted_wrt_iff_nth_less)
  next
    case False
    with assms(5) have "j < i" by simp
    with sw assms(3) have "sep (?ys ! j) (?ys ! i)" by (simp add: sorted_wrt_iff_nth_less)
    then show ?thesis by (simp add: sep_sym)
  qed
  have c: "okNote n" if "n \<in> set ?ys" for n
    using that ti unfolding ys by (simp add: set_sortByTime trackInvD_def)
  from assms(3,4) have oi: "okNote (?ys ! i)" and oj: "okNote (?ys ! j)" by (auto intro: c)
  have a: "time (?ys ! i) + duration (?ys ! i) \<le> endTime (?ys ! i) + 1 / 2 ^ 31"
    using oi by (rule okNote_end)
  have b: "time (?ys ! j) + duration (?ys ! j) \<le> endTime (?ys ! j) + 1 / 2 ^ 31"
    using oj by (rule okNote_end)
  from s a b EPS_D_bounds(2) show ?thesis
    unfolding sep_def EPS_def by auto
qed

theorem tracks_overlap_bound_witness:
  "processMidiD exSpanned
     = [[\<lparr> midi = 72, time = 0, duration = 1, velocity = 1, endTime = 1, origTrack = 0 \<rparr>,
         \<lparr> midi = 60, time = 1, duration = 2, velocity = 1, endTime = 3, origTrack = 1 \<rparr>], [], []]
   \<and> (time (processMidiD exSpanned ! 0 ! 0) + duration (processMidiD exSpanned ! 0 ! 0)
         \<le> time (processMidiD exSpanned ! 0 ! 1) + EPS + 1 / 2 ^ 29
      \<or> time (processMidiD exSpanned ! 0 ! 1) + duration (processMidiD exSpanned ! 0 ! 1)
         \<le> time (processMidiD exSpanned ! 0 ! 0) + EPS + 1 / 2 ^ 29)"
proof -
  have 1: "\<forall>tr\<in>set exSpanned. \<forall>r\<in>set tr. \<bar>raw_time r\<bar> \<le> 2 ^ 20 \<and> \<bar>raw_duration r\<bar> \<le> 2 ^ 20"
    by (simp add: exSpanned_def rawNote_def)
  have 2: "processMidiD exSpanned
     = [[\<lparr> midi = 72, time = 0, duration = 1, velocity = 1, endTime = 1, origTrack = 0 \<rparr>,
         \<lparr> midi = 60, time = 1, duration = 2, velocity = 1, endTime = 3, origTrack = 1 \<rparr>], [], []]"
    by (simp add: eval_defsD exSpanned_def rd_eval)
  have 3: "(0::nat) < 3" "0 < length (processMidiD exSpanned ! 0)"
    "1 < length (processMidiD exSpanned ! 0)" "(0::nat) \<noteq> 1"
    by (simp_all add: 2)
  from tracks_overlap_bound [OF 1 3] 2 show ?thesis by blast
qed

text \<open>
  Two runs in which the first source track's two notes both land on Main Theme and
  overlap by more than \<open>EPS\<close>: by \<open>2^-19\<close> at times near \<open>2^33\<close>, and by a little
  more than \<open>1e-6\<close> at times near 1.
\<close>

theorem tracks_overlap_counterexample:
  "processMidiD exHuge
     = [[\<lparr> midi = 60, time = 2 ^ 33, duration = 1, velocity = 1, endTime = 2 ^ 33 + 1,
           origTrack = 0 \<rparr>,
         \<lparr> midi = 62, time = 2 ^ 33 + 1 - 1 / 2 ^ 19, duration = 1, velocity = 1,
           endTime = 2 ^ 33 + 2 - 1 / 2 ^ 19, origTrack = 0 \<rparr>], [], []]
   \<and> \<not> (time (processMidiD exHuge ! 0 ! 0) + duration (processMidiD exHuge ! 0 ! 0)
          \<le> time (processMidiD exHuge ! 0 ! 1) + EPS
        \<or> time (processMidiD exHuge ! 0 ! 1) + duration (processMidiD exHuge ! 0 ! 1)
          \<le> time (processMidiD exHuge ! 0 ! 0) + EPS)
   \<and> processMidiD exNearOne
     = [[\<lparr> midi = 60, time = 0, duration = 1, velocity = 1, endTime = 1, origTrack = 0 \<rparr>,
         \<lparr> midi = 62, time = 9007190247541737 / 2 ^ 53, duration = 1, velocity = 1,
           endTime = 2251798687785341 / 2 ^ 50, origTrack = 0 \<rparr>], [], []]
   \<and> \<not> (time (processMidiD exNearOne ! 0 ! 0) + duration (processMidiD exNearOne ! 0 ! 0)
          \<le> time (processMidiD exNearOne ! 0 ! 1) + EPS
        \<or> time (processMidiD exNearOne ! 0 ! 1) + duration (processMidiD exNearOne ! 0 ! 1)
          \<le> time (processMidiD exNearOne ! 0 ! 0) + EPS)"
proof -
  have 1: "processMidiD exHuge
     = [[\<lparr> midi = 60, time = 2 ^ 33, duration = 1, velocity = 1, endTime = 2 ^ 33 + 1,
           origTrack = 0 \<rparr>,
         \<lparr> midi = 62, time = 2 ^ 33 + 1 - 1 / 2 ^ 19, duration = 1, velocity = 1,
           endTime = 2 ^ 33 + 2 - 1 / 2 ^ 19, origTrack = 0 \<rparr>], [], []]"
    by (simp add: eval_defsD exHuge_def rd_eval)
  have 2: "processMidiD exNearOne
     = [[\<lparr> midi = 60, time = 0, duration = 1, velocity = 1, endTime = 1, origTrack = 0 \<rparr>,
         \<lparr> midi = 62, time = 9007190247541737 / 2 ^ 53, duration = 1, velocity = 1,
           endTime = 2251798687785341 / 2 ^ 50, origTrack = 0 \<rparr>], [], []]"
    by (simp add: eval_defsD exNearOne_def rd_eval)
  show ?thesis unfolding 1 2 by (simp add: EPS_def)
qed

text \<open>
  C2 (as amended). Scenario D of the specification expects the earlier of two notes
  0--2 and 1--3 of one origin track to be cut to 0--1 when no other track is free. The
  code does not do that: the candidate loop skips the affinity track, and the in-place
  truncation asks the existing note to end more than \<open>EPS\<close> after the incoming one ends.
  What holds instead: when the later note 1--3 has an affinity entry and each of the
  three tracks holds notes spanning 0--2, the later note is dropped and the state, tracks
  and affinity map, is unchanged; so the earlier note keeps its span 0--2.
\<close>

theorem scenario_D_amended:
  assumes "time x = 1" and "endTime x = 3"
    and "origTrackToTarget s (origTrack x) = Some a" and "a < 3"
    and "\<forall>k\<in>set TRACK_IDXS. trackState s ! k \<noteq> []
           \<and> (\<forall>n\<in>set (trackState s ! k). time n = 0 \<and> endTime n = 2)"
  shows "allocNote allNotes s x = (False, s)"
proof (rule allocNote_all_busy)
  show "\<forall>p. origTrackToTarget s (origTrack x) = Some p \<longrightarrow> p < 3"
    using assms(3,4) by simp
  show "\<forall>k\<in>set TRACK_IDXS. \<exists>j. findOverlap x (trackState s ! k) = Some j
           \<and> time (trackState s ! k ! j) \<le> time x
           \<and> endTime (trackState s ! k ! j) \<le> endTime x + EPS"
  proof
    fix k assume "k \<in> set TRACK_IDXS"
    with assms(5) obtain n ns where t: "trackState s ! k = n # ns" "time n = 0" "endTime n = 2"
      by (cases "trackState s ! k") auto
    then have "overlaps x n" using assms(1,2) by (simp add: overlaps_def EPS_def)
    with t have "findOverlap x (trackState s ! k) = Some 0" by simp
    moreover have "time (trackState s ! k ! 0) \<le> time x \<and> endTime (trackState s ! k ! 0) \<le> endTime x + EPS"
      using t assms(1,2) by (simp add: EPS_def)
    ultimately show "\<exists>j. findOverlap x (trackState s ! k) = Some j
           \<and> time (trackState s ! k ! j) \<le> time x
           \<and> endTime (trackState s ! k ! j) \<le> endTime x + EPS"
      by blast
  qed
qed

theorem scenario_D_amended_witness:
  "trackState exCrowdedState
       = [[mkNote 0 (rawNote 72 0 2)], [mkNote 1 (rawNote 60 0 2)], [mkNote 2 (rawNote 50 0 2)]]
   \<and> exLate = mkNote 0 (rawNote 72 1 2)
   \<and> time exLate = 1 \<and> endTime exLate = 3
   \<and> origTrackToTarget exCrowdedState (origTrack exLate) = Some 0
   \<and> allocNote (allNotesOf exCrowded) exCrowdedState exLate = (False, exCrowdedState)"
proof -
  have 1: "trackState exCrowdedState
       = [[mkNote 0 (rawNote 72 0 2)], [mkNote 1 (rawNote 60 0 2)], [mkNote 2 (rawNote 50 0 2)]]"
    by (simp add: eval_defs exCrowded_def exCrowdedState_def)
  have 2: "exLate = mkNote 0 (rawNote 72 1 2)"
    by (simp add: eval_defs exCrowded_def exLate_def)
  have 3: "origTrackToTarget exCrowdedState (origTrack exLate) = Some 0"
    by (simp add: eval_defs exCrowded_def exCrowdedState_def exLate_def)
  have 4: "\<forall>k\<in>set TRACK_IDXS. trackState exCrowdedState ! k \<noteq> []
           \<and> (\<forall>n\<in>set (trackState exCrowdedState ! k). time n = 0 \<and> endTime n = 2)"
    unfolding 1 by (simp add: TRACK_IDXS_def mkNote_def rawNote_def)
  have 5: "(0::nat) < 3" by simp
  have 6: "time exLate = 1" "endTime exLate = 3" by (simp_all add: 2 mkNote_def rawNote_def)
  from scenario_D_amended [OF 6 3 5 4, of "allNotesOf exCrowded"] 1 2 3 6 show ?thesis by blast
qed

text \<open>
  The scenario as the specification words it, with no other track free: while the first
  source track's earlier note holds Main Theme, two other source tracks fill Chord and
  Base over 0--2. The later note is dropped and the earlier note is left at 0--2.
\<close>

theorem scenario_D_counterexample:
  "processMidi exCrowded
     = [[mkNote 0 (rawNote 72 0 2)], [mkNote 1 (rawNote 60 0 2)], [mkNote 2 (rawNote 50 0 2)]]
   \<and> droppedNotes exCrowded = [mkNote 0 (rawNote 72 1 2)]
   \<and> \<not> (mkNote 0 (rawNote 72 0 1) \<in> set (processMidi exCrowded ! 0)
         \<and> mkNote 0 (rawNote 72 1 2) \<in> set (processMidi exCrowded ! 0)
         \<and> droppedNotes exCrowded = [])"
  by (simp add: eval_defs exCrowded_def)

text \<open>
  C3. The tracks of the result hold as many notes as the input has, less the dropped
  ones: at most the number of input notes, and exactly that number if and only if no
  note is dropped.
\<close>

theorem note_count:
  "sum_list (map length (processMidi tracks)) + length (droppedNotes tracks)
     = sum_list (map length tracks)
   \<and> sum_list (map length (processMidi tracks)) \<le> sum_list (map length tracks)
   \<and> (sum_list (map length (processMidi tracks)) = sum_list (map length tracks)
        \<longleftrightarrow> droppedNotes tracks = [])"
proof -
  obtain d s' where r: "allocLoop (allNotesOf tracks) (allNotesOf tracks) initState = (d, s')"
    by (cases "allocLoop (allNotesOf tracks) (allNotesOf tracks) initState")
  have wf: "wfState initState" by (simp add: wfState_def initState_def TRACK_IDXS_def)
  have "map length (processMidi tracks) = map length (trackState s')"
    using r by (simp add: processMidi_def allocate_def Let_def length_sortByTime)
  then have "sum_list (map length (processMidi tracks)) = totalNotes s'"
    by (simp add: totalNotes_def)
  moreover have "droppedNotes tracks = d" using r by (simp add: droppedNotes_def allocate_def Let_def)
  moreover have "totalNotes initState = 0" by (simp add: totalNotes_def initState_def)
  ultimately have "sum_list (map length (processMidi tracks)) + length (droppedNotes tracks)
     = sum_list (map length tracks)"
    using allocLoop_count[OF wf r] by (simp add: length_allNotes)
  then show ?thesis by auto
qed

theorem note_count_witness:
  "sum_list (map length (processMidi exCrowded)) = 3 \<and> length (droppedNotes exCrowded) = 1
   \<and> sum_list (map length exCrowded) = 4
   \<and> sum_list (map length (processMidi exCrowded)) \<noteq> sum_list (map length exCrowded)
   \<and> droppedNotes exCrowded \<noteq> []"
  using note_count [of exCrowded]
  by (simp add: eval_defs exCrowded_def)

text \<open>
  C4. For a note of the processing order, the pitch-based suggestion is 0 when its pitch
  is the maximum pitch of the notes with exactly its start time, and 1 otherwise. It is
  never 2: the comparison meant for the lowest pitch reads \<open>.midi\<close> of timestamps and is
  always false. With no affinity entry, the candidate order is the suggested track first.
\<close>

theorem pitch_suggestion:
  assumes "x \<in> set allNotes"
  shows "idxByPitchOf allNotes x
           = (if midi x = Max (set (map midi (filter (\<lambda>n. time n = time x) allNotes)))
              then 0 else 1)
       \<and> idxByPitchOf allNotes x \<noteq> 2
       \<and> \<not> strictEq (midi x)
             (Math_min (map midiOfNumber (map time (filter (\<lambda>n. time n = time x) allNotes))))
       \<and> tryOrderOf allNotes None x
           = (if idxByPitchOf allNotes x = 0 then [0, 1, 2] else [1, 0, 2])"
proof (intro conjI)
  show "idxByPitchOf allNotes x
           = (if midi x = Max (set (map midi (filter (\<lambda>n. time n = time x) allNotes)))
              then 0 else 1)"
    unfolding Max_midi_filter using assms by (rule idxByPitch_char)
  show "idxByPitchOf allNotes x \<noteq> 2"
    using idxByPitchOf_cases[of allNotes x] by auto
  show "\<not> strictEq (midi x)
             (Math_min (map midiOfNumber (map time (filter (\<lambda>n. time n = time x) allNotes))))"
    by (rule Math_min_broken)
  show "tryOrderOf allNotes None x
           = (if idxByPitchOf allNotes x = 0 then [0, 1, 2] else [1, 0, 2])"
    using idxByPitchOf_cases[of allNotes x]
    by (auto simp: tryOrderOf_def Let_def TRACK_IDXS_def)
qed

theorem pitch_suggestion_witness:
  "exChord = [mkNote 0 (rawNote 72 0 1), mkNote 0 (rawNote 60 0 1), mkNote 0 (rawNote 48 0 1),
              mkNote 0 (rawNote 40 2 1)]
   \<and> mkNote 0 (rawNote 48 0 1) \<in> set exChord
   \<and> idxByPitchOf exChord (mkNote 0 (rawNote 48 0 1)) = 1
   \<and> idxByPitchOf exChord (mkNote 0 (rawNote 48 0 1)) \<noteq> 2
   \<and> tryOrderOf exChord None (mkNote 0 (rawNote 48 0 1)) = [1, 0, 2]
   \<and> idxByPitchOf exChord (mkNote 0 (rawNote 72 0 1)) = 0
   \<and> idxByPitchOf exChord (mkNote 0 (rawNote 40 2 1)) = 0"
proof -
  have e: "exChord = [mkNote 0 (rawNote 72 0 1), mkNote 0 (rawNote 60 0 1),
              mkNote 0 (rawNote 48 0 1), mkNote 0 (rawNote 40 2 1)]"
    by (simp add: exChord_def eval_defs)
  have m: "mkNote 0 (rawNote 48 0 1) \<in> set exChord" by (simp add: e)
  have mx: "Max (set (map midi (filter (\<lambda>n. time n = time (mkNote 0 (rawNote 48 0 1))) exChord))) = 72"
    by (simp add: e mkNote_def rawNote_def)
  have p: "idxByPitchOf exChord (mkNote 0 (rawNote 72 0 1)) = 0
         \<and> idxByPitchOf exChord (mkNote 0 (rawNote 40 2 1)) = 0"
    by (simp add: e eval_defs)
  from pitch_suggestion [OF m] mx have
    "idxByPitchOf exChord (mkNote 0 (rawNote 48 0 1)) = 1
     \<and> idxByPitchOf exChord (mkNote 0 (rawNote 48 0 1)) \<noteq> 2
     \<and> tryOrderOf exChord None (mkNote 0 (rawNote 48 0 1)) = [1, 0, 2]"
    by (simp add: mkNote_def rawNote_def)
  with e m p show ?thesis by blast
qed

text \<open>
  C5. An affinity entry, once present, is the same after one more note and at the end
  of any further run of the loop.
\<close>

theorem affinity_entry_stable:
  assumes "origTrackToTarget s k = Some v"
  shows "origTrackToTarget (snd (allocNote allNotes s x)) k = Some v
       \<and> origTrackToTarget (snd (allocLoop allNotes rest s)) k = Some v"
proof
  obtain a s' where r: "allocNote allNotes s x = (a, s')" by (cases "allocNote allNotes s x")
  from allocNote_affinity[OF assms r] r
  show "origTrackToTarget (snd (allocNote allNotes s x)) k = Some v" by simp
  show "origTrackToTarget (snd (allocLoop allNotes rest s)) k = Some v"
    using assms by (rule allocLoop_affinity)
qed

theorem affinity_entry_stable_witness:
  "origTrackToTarget exFirstState 0 = Some 0
   \<and> origTrackToTarget (snd (allocNote (allNotesOf exCrowded) exFirstState exLate)) 0 = Some 0
   \<and> origTrackToTarget
        (snd (allocLoop (allNotesOf exCrowded) (drop 1 (allNotesOf exCrowded)) exFirstState)) 0
      = Some 0"
proof -
  have h: "origTrackToTarget exFirstState 0 = Some 0"
    by (simp add: eval_defs exCrowded_def exFirstState_def)
  from affinity_entry_stable [OF h] h show ?thesis by blast
qed



text \<open>
  C7. The processing order is a rearrangement of all notes of all source tracks, each
  tagged with the index of its track and keeping its pitch and start time, in which
  start time (\<open>raw_time\<close>) ascends and, at equal start times, pitch (\<open>raw_midi\<close>)
  descends. The allocator considers the notes in exactly this order: its state is the
  left-to-right fold of the single-note step over it, the result is read off that state,
  and a run over a list extended by one note is the run over the list followed by the
  step for that note. Rounding the comparator's difference of start times changes
  nothing: the sort with the rounded comparator returns the same list.
\<close>

theorem processing_order:
  "(\<exists>ps. allNotesOf tracks = map (\<lambda>(i, r). mkNote i r) ps
         \<and> mset ps = mset (concat (map (\<lambda>(i, rs). map (Pair i) rs) (enumerate 0 tracks)))
         \<and> sorted_wrt (\<lambda>(i, a) (j, b). raw_time a < raw_time b
                          \<or> (raw_time a = raw_time b \<and> raw_midi b \<le> raw_midi a)) ps)
   \<and> midi (mkNote i r) = raw_midi r \<and> time (mkNote i r) = raw_time r
   \<and> duration (mkNote i r) = raw_duration r \<and> velocity (mkNote i r) = raw_velocity r
   \<and> origTrack (mkNote i r) = i
   \<and> snd (allocate tracks)
       = foldl (\<lambda>s n. snd (allocNote (allNotesOf tracks) s n)) initState (allNotesOf tracks)
   \<and> processMidi tracks
       = map sortByTime (trackState
           (foldl (\<lambda>s n. snd (allocNote (allNotesOf tracks) s n)) initState (allNotesOf tracks)))
   \<and> allocLoop allNotes (xs @ [x]) s
       = (let (dropped, s') = allocLoop allNotes xs s;
              (assigned, s'') = allocNote allNotes s' x
          in (if assigned then dropped else dropped @ [x], s''))
   \<and> sortNotesD ns = sortNotes ns"
proof -
  let ?f = "\<lambda>(i, r). mkNote i r"
  let ?qs = "concat (map (\<lambda>(i, rs). map (Pair i) rs) (enumerate 0 tracks))"
  from sortNotes_map[of ?f ?qs] obtain ps where
    ps: "sortNotes (map ?f ?qs) = map ?f ps" "mset ps = mset ?qs" by blast
  have all: "allNotesOf tracks = map ?f ps"
    by (simp only: allNotesOf_def collectNotes_map ps(1))
  have "sorted_wrt noteOrder (map ?f ps)"
    using sorted_sortNotes[of "collectNotes tracks"] all by (simp only: allNotesOf_def)
  then have "sorted_wrt (\<lambda>p q. noteOrder (?f p) (?f q)) ps" by (simp only: sorted_wrt_map)
  moreover have "(\<lambda>p q. noteOrder (?f p) (?f q))
        = (\<lambda>(i, a) (j, b). raw_time a < raw_time b
                          \<or> (raw_time a = raw_time b \<and> raw_midi b \<le> raw_midi a))"
    by (auto simp: fun_eq_iff noteOrder_def mkNote_def)
  ultimately have "sorted_wrt (\<lambda>(i, a) (j, b). raw_time a < raw_time b
                          \<or> (raw_time a = raw_time b \<and> raw_midi b \<le> raw_midi a)) ps"
    by simp
  with all ps(2) have 1: "\<exists>ps. allNotesOf tracks = map ?f ps \<and> mset ps = mset ?qs
         \<and> sorted_wrt (\<lambda>(i, a) (j, b). raw_time a < raw_time b
                          \<or> (raw_time a = raw_time b \<and> raw_midi b \<le> raw_midi a)) ps"
    by blast
  have 2: "snd (allocate tracks)
       = foldl (\<lambda>s n. snd (allocNote (allNotesOf tracks) s n)) initState (allNotesOf tracks)"
    by (simp add: allocate_def Let_def allocLoop_fold)
  then have 3: "processMidi tracks
       = map sortByTime (trackState
           (foldl (\<lambda>s n. snd (allocNote (allNotesOf tracks) s n)) initState (allNotesOf tracks)))"
    by (simp add: processMidi_def)
  show ?thesis
    using 1 2 3 mkNote_fields[of i r] allocLoop_snoc[of allNotes xs x s] sortNotesD_eq[of ns]
    by (intro conjI) simp_all
qed

theorem processing_order_witness:
  "allNotesOf exMixed
     = map (\<lambda>(i, r). mkNote i r)
         [(0, rawNote 64 0 1), (1, rawNote 55 0 1), (1, rawNote 72 1 1), (0, rawNote 60 1 1)]
   \<and> snd (allocate exMixed)
       = foldl (\<lambda>s n. snd (allocNote (allNotesOf exMixed) s n)) initState (allNotesOf exMixed)
   \<and> processMidi exMixed
       = [[mkNote 0 (rawNote 64 0 1), mkNote 0 (rawNote 60 1 1)],
          [mkNote 1 (rawNote 55 0 1), mkNote 1 (rawNote 72 1 1)], []]"
proof -
  have 1: "allNotesOf exMixed
     = map (\<lambda>(i, r). mkNote i r)
         [(0, rawNote 64 0 1), (1, rawNote 55 0 1), (1, rawNote 72 1 1), (0, rawNote 60 1 1)]"
    by (simp add: exMixed_def eval_defs)
  have 2: "processMidi exMixed
       = [[mkNote 0 (rawNote 64 0 1), mkNote 0 (rawNote 60 1 1)],
          [mkNote 1 (rawNote 55 0 1), mkNote 1 (rawNote 72 1 1)], []]"
    by (simp add: exMixed_def eval_defs)
  from processing_order [of exMixed] 1 2 show ?thesis by blast
qed

text \<open>
  C8. Scenario A: two notes of one source track with start 0, duration 1 and pitches 60
  and 72, in either input order and with any velocities. Pitch 72 goes to Main Theme
  (track 0) and pitch 60 to Chord (track 1), both with their full duration, and nothing
  is dropped.
\<close>

theorem scenario_A:
  "processMidi [[\<lparr> raw_midi = 60, raw_time = 0, raw_duration = 1, raw_velocity = v1 \<rparr>,
                 \<lparr> raw_midi = 72, raw_time = 0, raw_duration = 1, raw_velocity = v2 \<rparr>]]
     = [[\<lparr> midi = 72, time = 0, duration = 1, velocity = v2, endTime = 1, origTrack = 0 \<rparr>],
        [\<lparr> midi = 60, time = 0, duration = 1, velocity = v1, endTime = 1, origTrack = 0 \<rparr>],
        []]
   \<and> droppedNotes [[\<lparr> raw_midi = 60, raw_time = 0, raw_duration = 1, raw_velocity = v1 \<rparr>,
                     \<lparr> raw_midi = 72, raw_time = 0, raw_duration = 1, raw_velocity = v2 \<rparr>]] = []
   \<and> processMidi [[\<lparr> raw_midi = 72, raw_time = 0, raw_duration = 1, raw_velocity = v2 \<rparr>,
                   \<lparr> raw_midi = 60, raw_time = 0, raw_duration = 1, raw_velocity = v1 \<rparr>]]
     = [[\<lparr> midi = 72, time = 0, duration = 1, velocity = v2, endTime = 1, origTrack = 0 \<rparr>],
        [\<lparr> midi = 60, time = 0, duration = 1, velocity = v1, endTime = 1, origTrack = 0 \<rparr>],
        []]
   \<and> droppedNotes [[\<lparr> raw_midi = 72, raw_time = 0, raw_duration = 1, raw_velocity = v2 \<rparr>,
                     \<lparr> raw_midi = 60, raw_time = 0, raw_duration = 1, raw_velocity = v1 \<rparr>]] = []"
  by (simp add: eval_defs)

theorem scenario_A_witness:
  "processMidi [[rawNote 60 0 1, rawNote 72 0 1]]
     = [[mkNote 0 (rawNote 72 0 1)], [mkNote 0 (rawNote 60 0 1)], []]
   \<and> droppedNotes [[rawNote 60 0 1, rawNote 72 0 1]] = []"
  using scenario_A [of 1 1]
  by (simp add: rawNote_def mkNote_def)



text \<open>
  C10. When a note stays unassigned, the iteration leaves the state, that is the three
  tracks and the affinity map, exactly as it was.
\<close>

theorem dropped_note_leaves_state:
  assumes "\<not> fst (allocNote allNotes s x)"
  shows "snd (allocNote allNotes s x) = s"
proof -
  obtain a s' where r: "allocNote allNotes s x = (a, s')" by (cases "allocNote allNotes s x")
  with assms have "a = False" by simp
  with r have "s' = s" by (intro allocNote_dropped[of allNotes s x]) simp
  with r show ?thesis by simp
qed

theorem dropped_note_leaves_state_witness:
  "trackState exCrowdedState
     = [[mkNote 0 (rawNote 72 0 2)], [mkNote 1 (rawNote 60 0 2)], [mkNote 2 (rawNote 50 0 2)]]
   \<and> origTrackToTarget exCrowdedState 0 = Some 0
   \<and> exLate = mkNote 0 (rawNote 72 1 2)
   \<and> \<not> fst (allocNote (allNotesOf exCrowded) exCrowdedState exLate)
   \<and> snd (allocNote (allNotesOf exCrowded) exCrowdedState exLate) = exCrowdedState"
  using dropped_note_leaves_state [of "allNotesOf exCrowded" exCrowdedState exLate]
  by (simp add: eval_defs exCrowded_def exCrowdedState_def exLate_def)

end
